theory Spec2Isabelle
  imports Complex_Main "HOL-Library.AList" "HOL-Library.Sublist"
begin

section \<open>Distances: Python floats holding integers or \<open>math.inf\<close>\<close>

text \<open>
  \<open>floyd_warshall\<close> stores \<open>float(w)\<close> for integer edge weights \<open>w\<close>, sums of such
  values, \<open>0.0\<close> and \<open>math.inf\<close>. The model keeps the integer exactly (a double is exact on
  integers below \<open>2 ^ 53\<close>) and adds one infinite value: \<open>inf + x = inf\<close>, and
  \<open>inf < x\<close> is false for every \<open>x\<close>, as for IEEE doubles. Rounding of larger values,
  and the \<open>OverflowError\<close> of \<open>float(w)\<close> for a weight beyond the range of a double, are
  outside the model.
\<close>

datatype dist_val = Finite int | Infinity

instantiation dist_val :: "{zero, plus, linorder}"
begin

definition zero_dist_val :: dist_val where
  "zero_dist_val = Finite 0"

fun plus_dist_val :: "dist_val \<Rightarrow> dist_val \<Rightarrow> dist_val" where
  "plus_dist_val (Finite a) (Finite b) = Finite (a + b)"
| "plus_dist_val _ _ = Infinity"

fun less_eq_dist_val :: "dist_val \<Rightarrow> dist_val \<Rightarrow> bool" where
  "less_eq_dist_val (Finite a) (Finite b) = (a \<le> b)"
| "less_eq_dist_val _ Infinity = True"
| "less_eq_dist_val Infinity (Finite b) = False"

fun less_dist_val :: "dist_val \<Rightarrow> dist_val \<Rightarrow> bool" where
  "less_dist_val (Finite a) (Finite b) = (a < b)"
| "less_dist_val (Finite a) Infinity = True"
| "less_dist_val Infinity _ = False"

instance
proof
  fix x y z :: dist_val
  show "(x < y) = (x \<le> y \<and> \<not> y \<le> x)"
    by (cases x; cases y) auto
  show "x \<le> x"
    by (cases x) auto
  show "x \<le> y \<Longrightarrow> y \<le> z \<Longrightarrow> x \<le> z"
    by (cases x; cases y; cases z) auto
  show "x \<le> y \<Longrightarrow> y \<le> x \<Longrightarrow> x = y"
    by (cases x; cases y) auto
  show "x \<le> y \<or> y \<le> x"
    by (cases x; cases y) auto
qed

end

instance dist_val :: ordered_comm_monoid_add
proof
  fix a b c :: dist_val
  show "a + b + c = a + (b + c)"
    by (cases a; cases b; cases c) auto
  show "a + b = b + a"
    by (cases a; cases b) auto
  show "0 + a = a"
    by (cases a) (auto simp: zero_dist_val_def)
  show "a \<le> b \<Longrightarrow> c + a \<le> c + b"
    by (cases a; cases b; cases c) auto
qed


section \<open>Errors\<close>

text \<open>
  Every exception the modelled functions can raise is a value. The four \<open>ValueError\<close>
  constructors are Python \<open>ValueError\<close>s told apart by where they are raised:
  \<open>int()\<close> of a string that is no integer literal, the unreachable-from-depot
  error of \<open>build_carp_instance\<close> (carrying the depot and the list of unreachable
  vertices of its message), \<open>np.max\<close> of an empty array and \<open>np.random.choice\<close>
  asked for more distinct elements than there are.
\<close>

datatype error =
    TypeError
  | IndexError
  | ValueError_int_literal
  | ValueError_unreachable int "nat list"
  | ValueError_zero_size_max
  | ValueError_sample
  | NetworkXPointlessConcept

section \<open>\<open>floyd_warshall\<close> (build_instance_gdb.py)\<close>

type_synonym matrix = "dist_val list list"

text \<open>Python's \<open>xs[i]\<close>: a negative index counts from the end, anything else out of
  range raises \<open>IndexError\<close>.\<close>

definition py_index :: "nat \<Rightarrow> int \<Rightarrow> error + nat" where
  "py_index len i =
     (if 0 \<le> i \<and> i < int len then Inr (nat i)
      else if i < 0 \<and> - int len \<le> i then Inr (nat (int len + i))
      else Inl IndexError)"

text \<open>\<open>range(1, n+1)\<close>, the vertex ids, as list indices.\<close>

definition vertices :: "int \<Rightarrow> nat list" where
  "vertices n = [1..<nat (n + 1)]"

text \<open>\<open>[[math.inf]*(n+1) for _ in range(n+1)]\<close>\<close>

definition init_matrix :: "int \<Rightarrow> matrix" where
  "init_matrix n = replicate (nat (n + 1)) (replicate (nat (n + 1)) Infinity)"

text \<open>\<open>for i in range(1, n+1): dist[i][i] = 0.0\<close>\<close>

definition set_diagonal :: "int \<Rightarrow> matrix \<Rightarrow> matrix" where
  "set_diagonal n dm = fold (\<lambda>i d. d[i := (d ! i)[i := 0]]) (vertices n) dm"

text \<open>One pass of the edge loop:
  \<open>dist[u][v] = min(dist[u][v], float(w)); dist[v][u] = min(dist[v][u], float(w))\<close>.\<close>

definition add_edge :: "int \<times> int \<times> int \<Rightarrow> matrix \<Rightarrow> error + matrix" where
  "add_edge e dm =
     (case e of (u, v, w) \<Rightarrow>
       (case py_index (length dm) u of
          Inl err \<Rightarrow> Inl err
        | Inr iu \<Rightarrow>
       (case py_index (length (dm ! iu)) v of
          Inl err \<Rightarrow> Inl err
        | Inr iv \<Rightarrow>
       (let dm1 = dm[iu := (dm ! iu)[iv := min (dm ! iu ! iv) (Finite w)]] in
       (case py_index (length dm1) v of
          Inl err \<Rightarrow> Inl err
        | Inr jv \<Rightarrow>
       (case py_index (length (dm1 ! jv)) u of
          Inl err \<Rightarrow> Inl err
        | Inr ju \<Rightarrow>
            Inr (dm1[jv := (dm1 ! jv)[ju := min (dm1 ! jv ! ju) (Finite w)]])))))))"

fun add_edges :: "(int \<times> int \<times> int) list \<Rightarrow> matrix \<Rightarrow> error + matrix" where
  "add_edges [] dm = Inr dm"
| "add_edges (e # es) dm =
     (case add_edge e dm of Inl err \<Rightarrow> Inl err | Inr dm' \<Rightarrow> add_edges es dm')"

text \<open>The body of the \<open>j\<close> loop. \<open>dk\<close> and \<open>di\<close> are references to rows of \<open>dist\<close>,
  so both are read from the current matrix; \<open>dik\<close> was read before the loop.\<close>

definition relax :: "dist_val \<Rightarrow> nat \<Rightarrow> nat \<Rightarrow> nat \<Rightarrow> matrix \<Rightarrow> matrix" where
  "relax dik k i j dm =
     (let alt = dik + dm ! k ! j
      in if alt < dm ! i ! j then dm[i := (dm ! i)[j := alt]] else dm)"

text \<open>The body of the \<open>i\<close> loop, with its \<open>continue\<close> when \<open>dist[i][k]\<close> is infinite.\<close>

definition relax_row :: "int \<Rightarrow> nat \<Rightarrow> nat \<Rightarrow> matrix \<Rightarrow> matrix" where
  "relax_row n k i dm =
     (let dik = dm ! i ! k
      in if dik = Infinity then dm else fold (relax dik k i) (vertices n) dm)"

text \<open>The body of the \<open>k\<close> loop.\<close>

definition relax_through :: "int \<Rightarrow> nat \<Rightarrow> matrix \<Rightarrow> matrix" where
  "relax_through n k dm = fold (relax_row n k) (vertices n) dm"

definition floyd_warshall :: "int \<Rightarrow> (int \<times> int \<times> int) list \<Rightarrow> error + matrix" where
  "floyd_warshall n edges =
     (case add_edges edges (set_diagonal n (init_matrix n)) of
        Inl err \<Rightarrow> Inl err
      | Inr dm \<Rightarrow> Inr (fold (relax_through n) (vertices n) dm))"

text \<open>The reference algorithm, from the specification's words: the same initialisation,
  then for every \<open>k\<close>, \<open>i\<close>, \<open>j\<close> the relaxation
  \<open>dist[i][j] \<leftarrow> min(dist[i][j], dist[i][k] + dist[k][j])\<close>, always executed.\<close>

definition relax_ref :: "nat \<Rightarrow> nat \<Rightarrow> nat \<Rightarrow> matrix \<Rightarrow> matrix" where
  "relax_ref k i j dm =
     dm[i := (dm ! i)[j := min (dm ! i ! j) (dm ! i ! k + dm ! k ! j)]]"

definition relax_through_ref :: "int \<Rightarrow> nat \<Rightarrow> matrix \<Rightarrow> matrix" where
  "relax_through_ref n k dm =
     fold (\<lambda>i. fold (relax_ref k i) (vertices n)) (vertices n) dm"

definition floyd_warshall_ref :: "int \<Rightarrow> (int \<times> int \<times> int) list \<Rightarrow> error + matrix" where
  "floyd_warshall_ref n edges =
     (case add_edges edges (set_diagonal n (init_matrix n)) of
        Inl err \<Rightarrow> Inl err
      | Inr dm \<Rightarrow> Inr (fold (relax_through_ref n) (vertices n) dm))"

section \<open>Text: the \<open>str\<close> methods and regular expressions of parse_gdb.py\<close>

text \<open>
  A text is a list of 8-bit characters, read as the code points \<open>0\<close> to \<open>255\<close>; text with
  higher code points is outside the model. The character classes are Python's on that range:
  \<open>str.strip\<close> and \<open>\s\<close> remove the same whitespace, \<open>\d\<close> is \<open>0\<close> to \<open>9\<close>.
\<close>

definition code :: "char \<Rightarrow> nat" where
  "code c = of_char c"

definition is_space :: "char \<Rightarrow> bool" where
  "is_space c \<longleftrightarrow>
     (let n = code c in (9 \<le> n \<and> n \<le> 13) \<or> (28 \<le> n \<and> n \<le> 32) \<or> n = 133 \<or> n = 160)"

definition is_digit :: "char \<Rightarrow> bool" where
  "is_digit c \<longleftrightarrow> (let n = code c in 48 \<le> n \<and> n \<le> 57)"

text \<open>The line boundaries of \<open>str.splitlines\<close>.\<close>

definition is_linebreak :: "char \<Rightarrow> bool" where
  "is_linebreak c \<longleftrightarrow> (let n = code c in (10 \<le> n \<and> n \<le> 13) \<or> (28 \<le> n \<and> n \<le> 30) \<or> n = 133)"

text \<open>\<open>str.upper\<close>, character by character. (The three code points whose upper case lies
  outside the range, \<open>0xB5\<close>, \<open>0xDF\<close> and \<open>0xFF\<close>, are left as they are; none of them can
  make a line start with the section marker or occur in a header key.)\<close>

definition to_upper :: "char \<Rightarrow> char" where
  "to_upper c =
     (let n = code c
      in if (97 \<le> n \<and> n \<le> 122) \<or> (224 \<le> n \<and> n \<le> 254 \<and> n \<noteq> 247) then char_of (n - 32) else c)"

definition upper :: "string \<Rightarrow> string" where
  "upper s = map to_upper s"

text \<open>Case folding for \<open>re.IGNORECASE\<close> against the letters of \<open>coste\<close> and \<open>demanda\<close>.\<close>

definition to_lower :: "char \<Rightarrow> char" where
  "to_lower c = (let n = code c in if 65 \<le> n \<and> n \<le> 90 then char_of (n + 32) else c)"

definition lstrip :: "string \<Rightarrow> string" where
  "lstrip s = dropWhile is_space s"

definition rstrip :: "string \<Rightarrow> string" where
  "rstrip s = rev (dropWhile is_space (rev s))"

definition strip :: "string \<Rightarrow> string" where
  "strip s = rstrip (lstrip s)"

definition rstrip_newline :: "string \<Rightarrow> string" where
  "rstrip_newline s = rev (dropWhile (\<lambda>c. code c = 10) (rev s))"

text \<open>\<open>s.split(tok, 1)[0]\<close>: the text before the first occurrence of \<open>tok\<close>, all of \<open>s\<close>
  when there is none.\<close>

fun before_token :: "string \<Rightarrow> string \<Rightarrow> string" where
  "before_token tok [] = []"
| "before_token tok (c # cs) = (if prefix tok (c # cs) then [] else c # before_token tok cs)"

definition COMMENT_TOKENS :: "string list" where
  "COMMENT_TOKENS = [''//'', ''#'', ''%'', '';'']"

definition strip_comment :: "string \<Rightarrow> string" where
  "strip_comment line = rstrip_newline (fold before_token COMMENT_TOKENS line)"

definition normalize_key :: "string \<Rightarrow> string" where
  "normalize_key k = map (\<lambda>c. if c = CHR '' '' then CHR ''_'' else c) (upper (strip k))"

text \<open>\<open>str.splitlines\<close>: \<open>cur\<close> holds the current line, reversed. A line break ends the
  line (\<open>\r\n\<close> counts once); no empty line follows the last break.\<close>

fun splitlines_from :: "string \<Rightarrow> string \<Rightarrow> string list" where
  "splitlines_from cur [] = (if cur = [] then [] else [rev cur])"
| "splitlines_from cur (c # cs) =
     (if is_linebreak c then
        (case cs of
           [] \<Rightarrow> [rev cur]
         | d # ds \<Rightarrow>
             if code c = 13 \<and> code d = 10 then rev cur # splitlines_from [] ds
             else rev cur # splitlines_from [] (d # ds))
      else splitlines_from (c # cur) cs)"

definition splitlines :: "string \<Rightarrow> string list" where
  "splitlines s = splitlines_from [] s"

subsection \<open>Integers from text\<close>

definition digit_value :: "char \<Rightarrow> int" where
  "digit_value c = int (code c) - 48"

definition digits_value :: "string \<Rightarrow> int" where
  "digits_value ds = fold (\<lambda>c acc. acc * 10 + digit_value c) ds 0"

text \<open>The groups of a text between underscores.\<close>

fun underscore_groups :: "string \<Rightarrow> string \<Rightarrow> string list" where
  "underscore_groups cur [] = [rev cur]"
| "underscore_groups cur (c # cs) =
     (if c = CHR ''_'' then rev cur # underscore_groups [] cs
      else underscore_groups (c # cur) cs)"

text \<open>Python's \<open>int(s)\<close> for a string: surrounding whitespace, an optional sign, then
  digits, where single underscores may separate digits. Anything else is a \<open>ValueError\<close>.
  (Python's integers are unbounded; the interpreter's optional limit on the number of digits
  of a literal is not modelled.)\<close>

definition int_of_str :: "string \<Rightarrow> int option" where
  "int_of_str s =
     (let t = strip s;
          neg = (t \<noteq> [] \<and> hd t = CHR ''-'');
          body = (if t \<noteq> [] \<and> (hd t = CHR ''-'' \<or> hd t = CHR ''+'') then tl t else t);
          groups = underscore_groups [] body
      in if list_all (\<lambda>g. g \<noteq> [] \<and> list_all is_digit g) groups
         then Some ((if neg then - 1 else 1) * digits_value (concat groups))
         else None)"

subsection \<open>The regular expressions\<close>

text \<open>\<open>PAIR_RE = \(\s*(\d+)\s*,\s*(\d+)\s*\)\<close>, matched at the start of a text. Whitespace,
  digits and the punctuation are disjoint, so every greedy quantifier takes its longest run
  and backtracking finds nothing else.\<close>

definition pair_at :: "string \<Rightarrow> (string \<times> string) option" where
  "pair_at s =
     (case s of
        [] \<Rightarrow> None
      | c # r \<Rightarrow>
          if c \<noteq> CHR ''('' then None
          else
            (let r1 = dropWhile is_space r;
                 g1 = takeWhile is_digit r1;
                 r2 = dropWhile is_space (dropWhile is_digit r1)
             in if g1 = [] then None
                else
                  (case r2 of
                     [] \<Rightarrow> None
                   | c2 # r3 \<Rightarrow>
                       if c2 \<noteq> CHR '','' then None
                       else
                         (let r4 = dropWhile is_space r3;
                              g2 = takeWhile is_digit r4;
                              r5 = dropWhile is_space (dropWhile is_digit r4)
                          in if g2 = [] then None
                             else
                               (case r5 of
                                  [] \<Rightarrow> None
                                | c3 # _ \<Rightarrow> if c3 = CHR '')'' then Some (g1, g2) else None)))))"

text \<open>\<open>PAIR_RE.search\<close>: the leftmost match.\<close>

fun PAIR_search :: "string \<Rightarrow> (string \<times> string) option" where
  "PAIR_search [] = None"
| "PAIR_search (c # cs) =
     (case pair_at (c # cs) of Some g \<Rightarrow> Some g | None \<Rightarrow> PAIR_search cs)"

text \<open>\<open>kw\s*(\d+)\<close> with \<open>re.IGNORECASE\<close>, for a lower-case keyword, matched at the start
  of a text.\<close>

definition keyword_at :: "string \<Rightarrow> string \<Rightarrow> string option" where
  "keyword_at kw s =
     (if length kw \<le> length s \<and> map to_lower (take (length kw) s) = kw
      then (let g = takeWhile is_digit (dropWhile is_space (drop (length kw) s))
            in if g = [] then None else Some g)
      else None)"

fun keyword_search :: "string \<Rightarrow> string \<Rightarrow> string option" where
  "keyword_search kw [] = keyword_at kw []"
| "keyword_search kw (c # cs) =
     (case keyword_at kw (c # cs) of Some g \<Rightarrow> Some g | None \<Rightarrow> keyword_search kw cs)"

definition COST_search :: "string \<Rightarrow> string option" where
  "COST_search line = keyword_search ''coste'' line"

definition DEM_search :: "string \<Rightarrow> string option" where
  "DEM_search line = keyword_search ''demanda'' line"

text \<open>The class \<open>[A-Z_\<dots>a-z0-9 ]\<close> of a header key; the seven accented capitals are the
  code points \<open>0xC1\<close>, \<open>0xC9\<close>, \<open>0xCD\<close>, \<open>0xD3\<close>, \<open>0xDA\<close>, \<open>0xDC\<close> and \<open>0xD1\<close>.\<close>

definition is_key_char :: "char \<Rightarrow> bool" where
  "is_key_char c \<longleftrightarrow>
     (let n = code c
      in (65 \<le> n \<and> n \<le> 90) \<or> (97 \<le> n \<and> n \<le> 122) \<or> (48 \<le> n \<and> n \<le> 57) \<or> n = 95 \<or> n = 32 \<or>
         n = 193 \<or> n = 201 \<or> n = 205 \<or> n = 211 \<or> n = 218 \<or> n = 220 \<or> n = 209)"

text \<open>\<open>HEADER_RE.match(line)\<close>, giving groups 1 and 2. The colon of the pattern is the
  first colon of the line, since neither the key class nor \<open>\s\<close> holds a colon. Before it
  stand whitespace, the key (the longest run of key characters) and whitespace again; when
  nothing but whitespace stands before the colon, the key can only be blanks given back by
  the leading \<open>\s*\<close>. After the colon, group 2 is the rest without its surrounding
  whitespace, and it must hold no newline, which \<open>.\<close> does not match.\<close>

definition HEADER_match :: "string \<Rightarrow> (string \<times> string) option" where
  "HEADER_match line =
     (let pre = takeWhile (\<lambda>c. c \<noteq> CHR '':'') line;
          rest = dropWhile (\<lambda>c. c \<noteq> CHR '':'') line
      in if rest = [] then None
         else
           (let p1 = dropWhile is_space pre;
                key = takeWhile is_key_char p1;
                p2 = dropWhile is_key_char p1;
                val = strip (tl rest)
            in if list_ex (\<lambda>c. code c = 10) val then None
               else if key \<noteq> [] \<and> list_all is_space p2 then Some (key, val)
               else if p1 = [] \<and> list_ex (\<lambda>c. c = CHR '' '') pre then Some ('' '', val)
               else None))"

section \<open>The parser (parse_gdb.py)\<close>

text \<open>A header value: \<open>coerce_value\<close> gives an \<open>int\<close> or the stripped string.\<close>

datatype hval = HInt int | HStr string

text \<open>\<open>re.fullmatch(r"-?\d+", v)\<close>\<close>

definition is_int_text :: "string \<Rightarrow> bool" where
  "is_int_text v \<longleftrightarrow>
     (let ds = (if v \<noteq> [] \<and> hd v = CHR ''-'' then tl v else v)
      in ds \<noteq> [] \<and> list_all is_digit ds)"

text \<open>\<open>int(s)\<close> as the parser calls it, on text a regular expression has matched.\<close>

definition py_int_str :: "string \<Rightarrow> error + int" where
  "py_int_str s = (case int_of_str s of None \<Rightarrow> Inl ValueError_int_literal | Some i \<Rightarrow> Inr i)"

definition coerce_value :: "string \<Rightarrow> error + hval" where
  "coerce_value v0 =
     (let v = strip v0
      in if is_int_text v
         then (case py_int_str v of Inl err \<Rightarrow> Inl err | Inr i \<Rightarrow> Inr (HInt i))
         else Inr (HStr v))"

record req_edge =
  edge_u :: int
  edge_v :: int
  edge_cost :: int
  edge_demand :: int
  edge_required :: bool

text \<open>The loop's variables. \<open>meta\<close> is a Python \<open>dict\<close>: an association list in
  insertion order, a repeated key overwriting its value in place.\<close>

record pstate =
  st_meta :: "(string \<times> hval) list"
  st_edges :: "req_edge list"
  in_req_list :: bool
  seen_req_header :: bool

definition initial_pstate :: pstate where
  "initial_pstate = \<lparr>st_meta = [], st_edges = [], in_req_list = False, seen_req_header = False\<rparr>"

text \<open>The last part of the loop body: \<open>m = HEADER_RE.match(line); if m: meta[key] = val\<close>.\<close>

definition header_step :: "string \<Rightarrow> pstate \<Rightarrow> error + pstate" where
  "header_step line st =
     (case HEADER_match line of
        None \<Rightarrow> Inr st
      | Some (k, v) \<Rightarrow>
          (case coerce_value v of
             Inl err \<Rightarrow> Inl err
           | Inr val \<Rightarrow> Inr (st\<lparr>st_meta := AList.update (normalize_key k) val (st_meta st)\<rparr>)))"

text \<open>An edge line: the four \<open>int(...)\<close> calls, then the \<open>append\<close>.\<close>

definition edge_step :: "string \<times> string \<Rightarrow> string \<Rightarrow> string \<Rightarrow> pstate \<Rightarrow> error + pstate" where
  "edge_step m_pair m_cost m_dem st =
     (case py_int_str (fst m_pair) of Inl err \<Rightarrow> Inl err | Inr u \<Rightarrow>
      case py_int_str (snd m_pair) of Inl err \<Rightarrow> Inl err | Inr v \<Rightarrow>
      case py_int_str m_cost of Inl err \<Rightarrow> Inl err | Inr cost \<Rightarrow>
      case py_int_str m_dem of Inl err \<Rightarrow> Inl err | Inr demand \<Rightarrow>
        Inr (st\<lparr>st_edges := st_edges st @
          [\<lparr>edge_u = u, edge_v = v, edge_cost = cost, edge_demand = demand,
            edge_required = True\<rparr>]\<rparr>))"

text \<open>\<open>line.upper().startswith("LISTA_ARISTAS_REQ")\<close>\<close>

definition is_section_start :: "string \<Rightarrow> bool" where
  "is_section_start line \<longleftrightarrow> prefix ''LISTA_ARISTAS_REQ'' (upper line)"

text \<open>One pass of the loop over the lines.\<close>

definition parse_line :: "string \<Rightarrow> pstate \<Rightarrow> error + pstate" where
  "parse_line raw st =
     (let line = strip (strip_comment raw)
      in if line = [] then Inr st
         else if is_section_start line
         then Inr (st\<lparr>in_req_list := True, seen_req_header := True\<rparr>)
         else if in_req_list st then
           (case (PAIR_search line, COST_search line, DEM_search line) of
              (Some m_pair, Some m_cost, Some m_dem) \<Rightarrow> edge_step m_pair m_cost m_dem st
            | _ \<Rightarrow>
                (case HEADER_match line of
                   Some _ \<Rightarrow> header_step line (st\<lparr>in_req_list := False\<rparr>)
                 | None \<Rightarrow> Inr st))
         else header_step line st)"

fun parse_lines :: "string list \<Rightarrow> pstate \<Rightarrow> error + pstate" where
  "parse_lines [] st = Inr st"
| "parse_lines (raw # raws) st =
     (case parse_line raw st of Inl err \<Rightarrow> Inl err | Inr st' \<Rightarrow> parse_lines raws st')"

record canonical_meta =
  m_name :: "hval option"
  m_comment :: "hval option"
  m_n_vertices :: "hval option"
  m_n_req :: "hval option"
  m_n_noreq :: "hval option"
  m_n_vehicles :: "hval option"
  m_capacity :: "hval option"
  m_req_total_cost :: "hval option"
  m_depot :: "hval option"
  m_cost_type :: "hval option"

definition canonical :: "(string \<times> hval) list \<Rightarrow> canonical_meta" where
  "canonical meta_raw =
     \<lparr>m_name = map_of meta_raw ''NOMBRE'',
      m_comment = map_of meta_raw ''COMENTARIO'',
      m_n_vertices = map_of meta_raw ''VERTICES'',
      m_n_req = map_of meta_raw ''ARISTAS_REQ'',
      m_n_noreq = map_of meta_raw ''ARISTAS_NOREQ'',
      m_n_vehicles = map_of meta_raw ''VEHICULOS'',
      m_capacity = map_of meta_raw ''CAPACIDAD'',
      m_req_total_cost = map_of meta_raw ''COSTE_TOTAL_REQ'',
      m_depot = map_of meta_raw ''DEPOSITO'',
      m_cost_type = map_of meta_raw ''TIPO_COSTES_ARISTAS''\<rparr>"

text \<open>The three warnings, with the values their messages print.\<close>

datatype warning =
    No_headers_parsed
  | No_section_header
  | Count_mismatch hval nat

text \<open>\<open>n_req != len(required_edges)\<close>: a string never equals an \<open>int\<close>.\<close>

fun differs_from_len :: "hval \<Rightarrow> nat \<Rightarrow> bool" where
  "differs_from_len (HInt i) k = (i \<noteq> int k)"
| "differs_from_len (HStr s) k = True"

definition make_warnings :: "pstate \<Rightarrow> warning list" where
  "make_warnings st =
     (if st_meta st = [] then [No_headers_parsed] else []) @
     (if \<not> seen_req_header st then [No_section_header] else []) @
     (case m_n_req (canonical (st_meta st)) of
        None \<Rightarrow> []
      | Some n_req \<Rightarrow>
          if differs_from_len n_req (length (st_edges st))
          then [Count_mismatch n_req (length (st_edges st))] else [])"

record parsed =
  meta_raw :: "(string \<times> hval) list"
  meta :: canonical_meta
  required_edges :: "req_edge list"
  warnings :: "warning list"

text \<open>\<open>parse_gdb_dat\<close> on the text read from the file. (Reading the file and the debug
  printing are outside the model.)\<close>

definition parse_gdb_dat :: "string \<Rightarrow> error + parsed" where
  "parse_gdb_dat text =
     (case parse_lines (splitlines text) initial_pstate of
        Inl err \<Rightarrow> Inl err
      | Inr st \<Rightarrow>
          Inr \<lparr>meta_raw = st_meta st, meta = canonical (st_meta st),
               required_edges = st_edges st, warnings = make_warnings st\<rparr>)"

section \<open>Assembling the instance (build_instance_gdb.py)\<close>

text \<open>\<open>int(x)\<close> for a field of the canonical meta: \<open>None\<close> raises \<open>TypeError\<close>, a
  string that is no integer literal \<open>ValueError\<close>.\<close>

definition py_int :: "hval option \<Rightarrow> error + int" where
  "py_int x =
     (case x of
        None \<Rightarrow> Inl TypeError
      | Some (HInt i) \<Rightarrow> Inr i
      | Some (HStr s) \<Rightarrow> py_int_str s)"

text \<open>\<open>[i for i in range(1, n+1) if dist[depot][i] == math.inf]\<close>: each element
  evaluates \<open>dist[depot][i]\<close>, so a depot outside the matrix raises \<open>IndexError\<close> unless
  the range is empty.\<close>

fun unreachable_from :: "matrix \<Rightarrow> int \<Rightarrow> nat list \<Rightarrow> error + nat list" where
  "unreachable_from dm depot [] = Inr []"
| "unreachable_from dm depot (i # is) =
     (case py_index (length dm) depot of
        Inl err \<Rightarrow> Inl err
      | Inr d \<Rightarrow>
     (case py_index (length (dm ! d)) (int i) of
        Inl err \<Rightarrow> Inl err
      | Inr j \<Rightarrow>
     (case unreachable_from dm depot is of
        Inl err \<Rightarrow> Inl err
      | Inr rest \<Rightarrow> Inr (if dm ! d ! j = Infinity then i # rest else rest))))"

record carp_instance =
  b_name :: "hval option"
  b_n_vertices :: int
  b_depot :: int
  b_capacity :: int
  b_n_tasks :: nat
  b_tasks :: "req_edge list"
  b_dist :: matrix

definition graph_edges :: "req_edge list \<Rightarrow> (int \<times> int \<times> int) list" where
  "graph_edges tasks = map (\<lambda>t. (edge_u t, edge_v t, edge_cost t)) tasks"

definition build_carp_instance :: "parsed \<Rightarrow> error + carp_instance" where
  "build_carp_instance p =
     (let tasks = required_edges p in
      case py_int (m_n_vertices (meta p)) of Inl err \<Rightarrow> Inl err | Inr n \<Rightarrow>
      case py_int (m_depot (meta p)) of Inl err \<Rightarrow> Inl err | Inr depot \<Rightarrow>
      case py_int (m_capacity (meta p)) of Inl err \<Rightarrow> Inl err | Inr capacity \<Rightarrow>
      case floyd_warshall n (graph_edges tasks) of Inl err \<Rightarrow> Inl err | Inr dm \<Rightarrow>
      case unreachable_from dm depot (vertices n) of Inl err \<Rightarrow> Inl err | Inr unreachable \<Rightarrow>
        if unreachable \<noteq> [] then Inl (ValueError_unreachable depot unreachable)
        else Inr \<lparr>b_name = m_name (meta p), b_n_vertices = n, b_depot = depot,
                  b_capacity = capacity, b_n_tasks = length tasks, b_tasks = tasks,
                  b_dist = dm\<rparr>)"

section \<open>The guardrail (conversionguardrail.py)\<close>

text \<open>A row of the \<open>(N, 6)\<close> arrays \<open>req\<close> and \<open>nonreq\<close>: origin, destination, demand,
  priority, service time, travel time. The entries are floats; the model takes them as
  reals (no NaN, no infinity).\<close>

record arc_row =
  row_u :: real
  row_v :: real
  row_demand :: real
  row_priority :: real
  row_service_time :: real
  row_travel_time :: real

text \<open>\<open>int(x)\<close> of a float truncates towards zero.\<close>

definition py_trunc :: "real \<Rightarrow> int" where
  "py_trunc x = (if 0 \<le> x then \<lfloor>x\<rfloor> else \<lceil>x\<rceil>)"

text \<open>The \<open>nx.MultiDiGraph\<close>: its nodes in insertion order and its arcs with their
  \<open>weight\<close>, parallel arcs kept.\<close>

record graph =
  g_nodes :: "int list"
  g_arcs :: "(int \<times> int \<times> real) list"

definition add_node :: "int \<Rightarrow> int list \<Rightarrow> int list" where
  "add_node x ns = (if x \<in> set ns then ns else ns @ [x])"

text \<open>\<open>G.add_edge(int(row[0]), int(row[1]), weight=row[5], demand=row[2])\<close>\<close>

definition add_arc :: "arc_row \<Rightarrow> graph \<Rightarrow> graph" where
  "add_arc row G =
     (let a = py_trunc (row_u row); b = py_trunc (row_v row)
      in \<lparr>g_nodes = add_node b (add_node a (g_nodes G)),
          g_arcs = g_arcs G @ [(a, b, row_travel_time row)]\<rparr>)"

definition build_graph :: "arc_row list \<Rightarrow> graph" where
  "build_graph rows = fold add_arc rows \<lparr>g_nodes = [], g_arcs = []\<rparr>"

text \<open>\<open>nx.is_strongly_connected(G)\<close> as networkx documents it: it raises
  \<open>NetworkXPointlessConcept\<close> on the graph without nodes, and otherwise tells whether
  every node reaches every node along arcs.\<close>

definition arc_pairs :: "graph \<Rightarrow> (int \<times> int) set" where
  "arc_pairs G = set (map (\<lambda>(a, b, w). (a, b)) (g_arcs G))"

definition is_strongly_connected :: "graph \<Rightarrow> error + bool" where
  "is_strongly_connected G =
     (if g_nodes G = [] then Inl NetworkXPointlessConcept
      else Inr (list_all (\<lambda>a. list_all (\<lambda>b. (a, b) \<in> (arc_pairs G)\<^sup>*) (g_nodes G)) (g_nodes G)))"

text \<open>\<open>np.max\<close> of a one-dimensional array: \<open>ValueError\<close> when it is empty.\<close>

definition np_max :: "real list \<Rightarrow> error + real" where
  "np_max xs = (case xs of [] \<Rightarrow> Inl ValueError_zero_size_max | x # rest \<Rightarrow> Inr (fold max rest x))"

text \<open>The two library calls whose results the model takes as given:
  \<open>dict(nx.all_pairs_dijkstra_path_length(G, weight='weight'))\<close>, a table holding the
  distance of every pair joined by a path (or the exception the call raises), and the draws
  of \<open>np.random.choice(nodes, 3, replace=False)\<close>, the \<open>t\<close>-th call returning
  \<open>random_draw t\<close>, three nodes of the graph.\<close>

type_synonym dist_table = "int \<Rightarrow> int \<Rightarrow> real option"

record libs =
  all_pairs_dijkstra_path_length :: "graph \<Rightarrow> error + dist_table"
  random_draw :: "nat \<Rightarrow> int \<times> int \<times> int"

text \<open>\<open>np.random.choice(nodes, 3, replace=False)\<close>: \<open>ValueError\<close> when there are fewer than
  three nodes to choose from.\<close>

definition random_choice :: "libs \<Rightarrow> nat \<Rightarrow> int list \<Rightarrow> error + int \<times> int \<times> int" where
  "random_choice lib t nodes =
     (if length nodes < 3 then Inl ValueError_sample else Inr (random_draw lib t))"

text \<open>The object's fields set by \<open>__init__\<close>.\<close>

record guardrail =
  gr_Q :: real
  gr_M_vehicles :: int
  gr_big_m :: real

datatype status = PASS | WARNING | FAIL

text \<open>The four issue messages, with the values they print.\<close>

datatype issue =
    Not_strongly_connected
  | Nonpositive_costs
  | Infeasible real real
  | Triangle_violation int int int

record report =
  Status :: status
  Issues :: "issue list"

text \<open>\<open>dist_matrix[a].get(b, self.big_m)\<close>\<close>

definition lookup_dist :: "guardrail \<Rightarrow> dist_table \<Rightarrow> int \<Rightarrow> int \<Rightarrow> real" where
  "lookup_dist self dist_matrix a b =
     (case dist_matrix a b of None \<Rightarrow> gr_big_m self | Some x \<Rightarrow> x)"

text \<open>The sampling loop over the remaining iterations \<open>ts\<close>, with its \<open>break\<close>.\<close>

fun sample_triples ::
  "guardrail \<Rightarrow> libs \<Rightarrow> dist_table \<Rightarrow> int list \<Rightarrow> nat list \<Rightarrow> report \<Rightarrow> error + report" where
  "sample_triples self lib dist_matrix nodes [] rep = Inr rep"
| "sample_triples self lib dist_matrix nodes (t # ts) rep =
     (case random_choice lib t nodes of
        Inl err \<Rightarrow> Inl err
      | Inr (u, v, w) \<Rightarrow>
          (let duw = lookup_dist self dist_matrix u w;
               duv = lookup_dist self dist_matrix u v;
               dvw = lookup_dist self dist_matrix v w
           in if duw > duv + dvw + 1 / 10000000
              then Inr (rep\<lparr>Status := FAIL, Issues := Issues rep @ [Triangle_violation u v w]\<rparr>)
              else sample_triples self lib dist_matrix nodes ts rep))"

text \<open>The first three checks, each an \<open>if\<close> that assigns the status and appends an issue.\<close>

definition check_connectivity :: "bool \<Rightarrow> report \<Rightarrow> report" where
  "check_connectivity strongly rep =
     (if \<not> strongly
      then rep\<lparr>Status := FAIL, Issues := Issues rep @ [Not_strongly_connected]\<rparr> else rep)"

definition check_costs :: "arc_row list \<Rightarrow> report \<Rightarrow> report" where
  "check_costs all_arcs rep =
     (if list_ex (\<lambda>row. row_travel_time row \<le> 0) all_arcs
      then rep\<lparr>Status := WARNING, Issues := Issues rep @ [Nonpositive_costs]\<rparr> else rep)"

definition check_demand :: "guardrail \<Rightarrow> real \<Rightarrow> report \<Rightarrow> report" where
  "check_demand self max_q rep =
     (if max_q > gr_Q self
      then rep\<lparr>Status := FAIL, Issues := Issues rep @ [Infeasible max_q (gr_Q self)]\<rparr> else rep)"

definition validate_instance ::
  "guardrail \<Rightarrow> libs \<Rightarrow> arc_row list \<Rightarrow> arc_row list \<Rightarrow> error + report" where
  "validate_instance self lib req nonreq =
     (let all_arcs = req @ nonreq;
          G = build_graph all_arcs;
          rep0 = \<lparr>Status = PASS, Issues = []\<rparr>
      in case is_strongly_connected G of Inl err \<Rightarrow> Inl err | Inr strongly \<Rightarrow>
         (let rep1 = check_connectivity strongly rep0;
              rep2 = check_costs all_arcs rep1
          in case np_max (map row_demand req) of Inl err \<Rightarrow> Inl err | Inr max_q \<Rightarrow>
             (let rep3 = check_demand self max_q rep2
              in case all_pairs_dijkstra_path_length lib G of Inl err \<Rightarrow> Inl err
                 | Inr dist_matrix \<Rightarrow>
                     sample_triples self lib dist_matrix (g_nodes G) [0..<100] rep3)))"

text \<open>Inputs for the examples: a guardrail with capacity 1 and the default \<open>big_m\<close>, a
  library whose shortest-path table is the given one and whose every draw is the given
  triple, and a row from \<open>a\<close> to \<open>b\<close> with the given demand and travel time.\<close>

definition example_guardrail :: guardrail where
  "example_guardrail = \<lparr>gr_Q = 1, gr_M_vehicles = 1, gr_big_m = 1000000\<rparr>"

definition example_libs :: "dist_table \<Rightarrow> int \<times> int \<times> int \<Rightarrow> libs" where
  "example_libs table triple =
     \<lparr>all_pairs_dijkstra_path_length = (\<lambda>G. Inr table), random_draw = (\<lambda>t. triple)\<rparr>"

definition example_row :: "real \<Rightarrow> real \<Rightarrow> real \<Rightarrow> real \<Rightarrow> arc_row" where
  "example_row a b q c =
     \<lparr>row_u = a, row_v = b, row_demand = q, row_priority = 1, row_service_time = c,
      row_travel_time = c\<rparr>"

text \<open>The shortest-path table of the graph with the arcs \<open>0 \<rightarrow> 1\<close> of weight \<open>0\<close> and
  \<open>1 \<rightarrow> 2\<close> of weight \<open>1\<close>.\<close>

definition path_table :: dist_table where
  "path_table a b =
     (if a = b \<and> (a = 0 \<or> a = 1 \<or> a = 2) then Some 0
      else if a = 0 \<and> b = 1 then Some 0
      else if a = 0 \<and> b = 2 then Some 1
      else if a = 1 \<and> b = 2 then Some 1
      else None)"

section \<open>Predicates used in the proofs\<close>

text \<open>A matrix of \<open>m\<close> rows of length \<open>m\<close>.\<close>

definition square :: "nat \<Rightarrow> matrix \<Rightarrow> bool" where
  "square m dm \<longleftrightarrow> length dm = m \<and> list_all (\<lambda>r. length r = m) dm"

text \<open>What the outer loop keeps on the vertices \<open>1..n\<close>: entries are non-negative and
  symmetric, the diagonal is zero.\<close>

definition fw_inv :: "int \<Rightarrow> matrix \<Rightarrow> bool" where
  "fw_inv n dm \<longleftrightarrow>
     square (nat (n + 1)) dm \<and>
     (\<forall>a \<in> set (vertices n). \<forall>b \<in> set (vertices n). 0 \<le> dm ! a ! b \<and> dm ! a ! b = dm ! b ! a) \<and>
     (\<forall>a \<in> set (vertices n). dm ! a ! a = 0)"

text \<open>The triangle inequality through the intermediate vertices in \<open>K\<close>.\<close>

definition triangle_on :: "int \<Rightarrow> nat set \<Rightarrow> matrix \<Rightarrow> bool" where
  "triangle_on n K dm \<longleftrightarrow>
     (\<forall>i \<in> set (vertices n). \<forall>j \<in> set (vertices n). \<forall>m \<in> K.
        dm ! i ! j \<le> dm ! i ! m + dm ! m ! j)"

text \<open>What the initialisation establishes, on all of the matrix.\<close>

definition init_inv :: "int \<Rightarrow> matrix \<Rightarrow> bool" where
  "init_inv n dm \<longleftrightarrow>
     square (nat (n + 1)) dm \<and>
     (\<forall>a < nat (n + 1). \<forall>b < nat (n + 1). 0 \<le> dm ! a ! b \<and> dm ! a ! b = dm ! b ! a) \<and>
     (\<forall>a \<in> set (vertices n). dm ! a ! a = 0)"

text \<open>The indices Python accepts for a list of length \<open>n + 1\<close>.\<close>

definition valid_index :: "int \<Rightarrow> int \<Rightarrow> bool" where
  "valid_index n i \<longleftrightarrow> - int (nat (n + 1)) \<le> i \<and> i < int (nat (n + 1))"

text \<open>What every edge the parser emits satisfies.\<close>

definition emitted_edge :: "req_edge \<Rightarrow> bool" where
  "emitted_edge e \<longleftrightarrow>
     0 \<le> edge_u e \<and> 0 \<le> edge_v e \<and> 0 \<le> edge_cost e \<and> 0 \<le> edge_demand e \<and> edge_required e"

text \<open>A raw line that the loop takes for the section-start marker.\<close>

definition marker_line :: "string \<Rightarrow> bool" where
  "marker_line raw \<longleftrightarrow> is_section_start (strip (strip_comment raw))"



section \<open>Example inputs\<close>

text \<open>An instance file with \<open>vs\<close> as its vertex count: the headers, the section marker and two
  required edges between the vertices 1 and 2.\<close>

definition example_text :: "string \<Rightarrow> string" where
  "example_text vs =
     ''VERTICES : '' @ vs @ [CHR 0x0A] @
     ''ARISTAS_REQ : 2'' @ [CHR 0x0A] @
     ''CAPACIDAD : 40'' @ [CHR 0x0A] @
     ''DEPOSITO : 1'' @ [CHR 0x0A] @
     ''LISTA_ARISTAS_REQ :'' @ [CHR 0x0A] @
     ''( 1, 2)   coste 5   demanda 50'' @ [CHR 0x0A] @
     ''( 1, 2)   coste 3   demanda 7'' @ [CHR 0x0A]"

definition example_edges :: "req_edge list" where
  "example_edges =
     [\<lparr>edge_u = 1, edge_v = 2, edge_cost = 5, edge_demand = 50, edge_required = True\<rparr>,
      \<lparr>edge_u = 1, edge_v = 2, edge_cost = 3, edge_demand = 7, edge_required = True\<rparr>]"

text \<open>What the parser returns for it.\<close>

definition example_parsed :: "int \<Rightarrow> parsed" where
  "example_parsed n =
     \<lparr>meta_raw = [(''VERTICES'', HInt n), (''ARISTAS_REQ'', HInt 2), (''CAPACIDAD'', HInt 40),
                  (''DEPOSITO'', HInt 1)],
      meta = \<lparr>m_name = None, m_comment = None, m_n_vertices = Some (HInt n),
               m_n_req = Some (HInt 2), m_n_noreq = None, m_n_vehicles = None,
               m_capacity = Some (HInt 40), m_req_total_cost = None, m_depot = Some (HInt 1),
               m_cost_type = None\<rparr>,
      required_edges = example_edges,
      warnings = []\<rparr>"
lemma dist_val_nonneg_add: "(0::dist_val) \<le> x \<Longrightarrow> 0 \<le> y \<Longrightarrow> 0 \<le> x + y"
  by (rule add_nonneg_nonneg)

lemma dist_val_infinity_add [simp]: "Infinity + x = Infinity" "x + Infinity = Infinity"
  by (cases x; simp)+

lemma dist_val_not_less_infinity [simp]: "\<not> Infinity < (x::dist_val)"
  by simp

lemma dist_val_le_infinity [simp]: "(x::dist_val) \<le> Infinity"
  by (cases x) simp_all

lemma dist_val_zero_le_Finite [simp]: "((0::dist_val) \<le> Finite w) = (0 \<le> w)"
  by (simp add: zero_dist_val_def)


section \<open>Floyd-Warshall: what the loops compute\<close>

lemma square_nth: "square m dm \<Longrightarrow> i < m \<Longrightarrow> length (dm ! i) = m"
  by (simp add: square_def list_all_length)

lemma square_update: "square m dm \<Longrightarrow> square m (dm[i := (dm ! i)[j := x]])"
proof (cases "i < length dm")
  case True
  assume "square m dm"
  then show ?thesis
    using True by (auto simp: square_def list_all_length nth_list_update)
next
  case False
  assume "square m dm"
  moreover from False have "dm[i := (dm ! i)[j := x]] = dm"
    by (simp add: not_less list_update_beyond)
  ultimately show ?thesis
    by simp
qed

lemma nth_update:
  "square m dm \<Longrightarrow> i < m \<Longrightarrow> j < m \<Longrightarrow>
   dm[i := (dm ! i)[j := x]] ! a ! b = (if a = i \<and> b = j then x else dm ! a ! b)"
  by (auto simp: square_def list_all_length nth_list_update)

lemma vertices_bound: "i \<in> set (vertices n) \<Longrightarrow> i < nat (n + 1)"
  by (simp add: vertices_def)

lemma distinct_vertices: "distinct (vertices n)"
  by (simp add: vertices_def)

lemma square_relax: "square m dm \<Longrightarrow> square m (relax dik k i j dm)"
  by (simp add: relax_def Let_def square_update)

lemma nth_relax:
  "square m dm \<Longrightarrow> i < m \<Longrightarrow> j < m \<Longrightarrow>
   relax dik k i j dm ! a ! b =
     (if a = i \<and> b = j then min (dm ! i ! j) (dik + dm ! k ! j) else dm ! a ! b)"
  by (auto simp: relax_def Let_def nth_update min_def)

lemma square_fold_relax: "square m dm \<Longrightarrow> square m (fold (relax dik k i) js dm)"
  by (induction js arbitrary: dm) (simp_all add: square_relax)

lemma nth_fold_relax:
  assumes "square m dm" "i < m" "\<forall>j \<in> set js. j < m" "distinct js" "i \<noteq> k"
  shows "fold (relax dik k i) js dm ! a ! b =
     (if a = i \<and> b \<in> set js then min (dm ! i ! b) (dik + dm ! k ! b) else dm ! a ! b)"
  using assms
proof (induction js arbitrary: dm)
  case Nil
  then show ?case by simp
next
  case (Cons j js)
  let ?d1 = "relax dik k i j dm"
  have sq: "square m ?d1" using Cons.prems(1) by (rule square_relax)
  have jm: "j < m" using Cons.prems(3) by simp
  have d1: "\<And>a b. ?d1 ! a ! b =
     (if a = i \<and> b = j then min (dm ! i ! j) (dik + dm ! k ! j) else dm ! a ! b)"
    using nth_relax [OF Cons.prems(1,2) jm] by blast
  have "fold (relax dik k i) js ?d1 ! a ! b =
     (if a = i \<and> b \<in> set js then min (?d1 ! i ! b) (dik + ?d1 ! k ! b) else ?d1 ! a ! b)"
    using Cons.IH [OF sq Cons.prems(2)] Cons.prems(3,4,5) by simp
  then show ?case
    using Cons.prems(4,5) by (auto simp: d1)
qed

lemma relax_id: "0 \<le> dik \<Longrightarrow> relax dik k k j dm = dm"
proof -
  assume "0 \<le> dik"
  then have "dm ! k ! j \<le> dik + dm ! k ! j"
    by (simp add: add_increasing)
  then show ?thesis
    by (simp add: relax_def Let_def not_less [symmetric])
qed

lemma fold_relax_id: "0 \<le> dik \<Longrightarrow> fold (relax dik k k) js dm = dm"
  by (induction js) (simp_all add: relax_id)

lemma relax_infinity: "relax Infinity k i j dm = dm"
  by (simp add: relax_def)

lemma fold_relax_infinity: "fold (relax Infinity k i) js dm = dm"
  by (induction js) (simp_all add: relax_infinity)

lemma square_relax_row: "square m dm \<Longrightarrow> square m (relax_row n k i dm)"
  by (simp add: relax_row_def Let_def square_fold_relax)

lemma min_add_self: "(0::dist_val) \<le> x \<Longrightarrow> min y (x + y) = y"
  by (simp add: add_increasing min_def)

lemma nth_relax_row:
  assumes "square (nat (n + 1)) dm" "i < nat (n + 1)" "0 \<le> dm ! k ! k"
  shows "relax_row n k i dm ! a ! b =
     (if a = i \<and> b \<in> set (vertices n) then min (dm ! i ! b) (dm ! i ! k + dm ! k ! b)
      else dm ! a ! b)"
proof (cases "i = k")
  case True
  have "relax_row n k i dm = dm"
    using assms(3) True by (simp add: relax_row_def Let_def fold_relax_id)
  then show ?thesis
    using True assms(3) by (simp add: min_add_self)
next
  case False
  show ?thesis
  proof (cases "dm ! i ! k = Infinity")
    case True
    then show ?thesis by (simp add: relax_row_def)
  next
    case inf: False
    have "\<forall>j \<in> set (vertices n). j < nat (n + 1)"
      by (simp add: vertices_bound)
    then show ?thesis
      using inf nth_fold_relax [OF assms(1,2) _ distinct_vertices False]
      by (simp add: relax_row_def Let_def)
  qed
qed

lemma square_fold_relax_row: "square m dm \<Longrightarrow> square m (fold (relax_row n k) is dm)"
  by (induction "is" arbitrary: dm) (simp_all add: square_relax_row)

lemma nth_fold_relax_row:
  assumes "square (nat (n + 1)) dm" "0 \<le> dm ! k ! k"
    "\<forall>i \<in> set is. i < nat (n + 1)" "distinct is"
  shows "fold (relax_row n k) is dm ! a ! b =
     (if a \<in> set is \<and> b \<in> set (vertices n)
      then min (dm ! a ! b) (dm ! a ! k + dm ! k ! b) else dm ! a ! b)"
  using assms
proof (induction "is" arbitrary: dm)
  case Nil
  then show ?case by simp
next
  case (Cons i "is")
  let ?d1 = "relax_row n k i dm"
  have im: "i < nat (n + 1)" using Cons.prems(3) by simp
  have sq: "square (nat (n + 1)) ?d1" using Cons.prems(1) by (rule square_relax_row)
  have d1: "\<And>a b. ?d1 ! a ! b =
     (if a = i \<and> b \<in> set (vertices n) then min (dm ! i ! b) (dm ! i ! k + dm ! k ! b)
      else dm ! a ! b)"
    using nth_relax_row [OF Cons.prems(1) im Cons.prems(2)] by blast
  have rowk: "\<And>b. ?d1 ! k ! b = dm ! k ! b"
    using Cons.prems(2) by (auto simp: d1 min_add_self)
  have colk: "\<And>a. a \<noteq> i \<Longrightarrow> ?d1 ! a ! k = dm ! a ! k"
    by (simp add: d1)
  have kk: "0 \<le> ?d1 ! k ! k"
    using Cons.prems(2) by (simp add: rowk)
  have step: "fold (relax_row n k) is ?d1 ! a ! b =
     (if a \<in> set is \<and> b \<in> set (vertices n)
      then min (?d1 ! a ! b) (?d1 ! a ! k + ?d1 ! k ! b) else ?d1 ! a ! b)"
    using Cons.IH [OF sq kk] Cons.prems(3,4) by simp
  show ?case
  proof (cases "a \<in> set is \<and> b \<in> set (vertices n)")
    case True
    then have ne: "a \<noteq> i" using Cons.prems(4) by auto
    then have "?d1 ! a ! b = dm ! a ! b" by (simp add: d1)
    then show ?thesis
      using step True ne by (simp add: rowk colk)
  next
    case False
    then have "fold (relax_row n k) is ?d1 ! a ! b = ?d1 ! a ! b"
      by (simp only: step False if_False)
    then show ?thesis
      using False by (auto simp: d1)
  qed
qed

lemma square_relax_through: "square m dm \<Longrightarrow> square m (relax_through n k dm)"
  by (simp add: relax_through_def square_fold_relax_row)

lemma nth_relax_through:
  assumes "square (nat (n + 1)) dm" "0 \<le> dm ! k ! k"
  shows "relax_through n k dm ! a ! b =
     (if a \<in> set (vertices n) \<and> b \<in> set (vertices n)
      then min (dm ! a ! b) (dm ! a ! k + dm ! k ! b) else dm ! a ! b)"
  unfolding relax_through_def
  using nth_fold_relax_row [OF assms _ distinct_vertices]
  by (simp add: vertices_bound)

subsection \<open>The reference algorithm does the same\<close>

lemma square_relax_ref: "square m dm \<Longrightarrow> square m (relax_ref k i j dm)"
  by (simp add: relax_ref_def square_update)

lemma nth_relax_ref:
  "square m dm \<Longrightarrow> i < m \<Longrightarrow> j < m \<Longrightarrow>
   relax_ref k i j dm ! a ! b =
     (if a = i \<and> b = j then min (dm ! i ! j) (dm ! i ! k + dm ! k ! j) else dm ! a ! b)"
  by (simp add: relax_ref_def nth_update)

lemma square_fold_relax_ref: "square m dm \<Longrightarrow> square m (fold (relax_ref k i) js dm)"
  by (induction js arbitrary: dm) (simp_all add: square_relax_ref)

lemma min_add_zero: "min (x::dist_val) (x + 0) = x" "min (x::dist_val) (0 + x) = x"
  by simp_all

lemma nth_fold_relax_ref:
  assumes "square m dm" "i < m" "\<forall>j \<in> set js. j < m" "distinct js" "dm ! k ! k = 0"
  shows "fold (relax_ref k i) js dm ! a ! b =
     (if a = i \<and> b \<in> set js then min (dm ! i ! b) (dm ! i ! k + dm ! k ! b)
      else dm ! a ! b)"
  using assms
proof (induction js arbitrary: dm)
  case Nil
  then show ?case by simp
next
  case (Cons j js)
  let ?d1 = "relax_ref k i j dm"
  have jm: "j < m" using Cons.prems(3) by simp
  have sq: "square m ?d1" using Cons.prems(1) by (rule square_relax_ref)
  have d1: "\<And>a b. ?d1 ! a ! b =
     (if a = i \<and> b = j then min (dm ! i ! j) (dm ! i ! k + dm ! k ! j) else dm ! a ! b)"
    using nth_relax_ref [OF Cons.prems(1,2) jm] by blast
  have kk: "?d1 ! k ! k = 0"
    using Cons.prems(5) by (auto simp: d1)
  have ik: "?d1 ! i ! k = dm ! i ! k"
    using Cons.prems(5) by (auto simp: d1)
  have kb: "\<And>b. b \<noteq> j \<Longrightarrow> ?d1 ! k ! b = dm ! k ! b"
    by (simp add: d1)
  have step: "fold (relax_ref k i) js ?d1 ! a ! b =
     (if a = i \<and> b \<in> set js then min (?d1 ! i ! b) (?d1 ! i ! k + ?d1 ! k ! b)
      else ?d1 ! a ! b)"
    using Cons.IH [OF sq Cons.prems(2) _ _ kk] Cons.prems(3,4) by simp
  show ?case
  proof (cases "a = i \<and> b \<in> set js")
    case True
    then have ne: "b \<noteq> j" using Cons.prems(4) by auto
    then have "?d1 ! i ! b = dm ! i ! b" by (simp add: d1)
    then show ?thesis
      using step True ne by (simp add: ik kb)
  next
    case False
    then have "fold (relax_ref k i) js ?d1 ! a ! b = ?d1 ! a ! b"
      by (simp only: step False if_False)
    then show ?thesis
      using False by (auto simp: d1)
  qed
qed

lemma matrix_eqI:
  assumes "square m x" "square m y" "\<And>a b. a < m \<Longrightarrow> b < m \<Longrightarrow> x ! a ! b = y ! a ! b"
  shows "x = y"
proof (rule nth_equalityI)
  show "length x = length y"
    using assms(1,2) by (simp add: square_def)
next
  fix a assume "a < length x"
  then have am: "a < m" using assms(1) by (simp add: square_def)
  show "x ! a = y ! a"
  proof (rule nth_equalityI)
    show "length (x ! a) = length (y ! a)"
      using assms(1,2) am by (simp add: square_nth)
  next
    fix b assume "b < length (x ! a)"
    then have "b < m" using assms(1) am by (simp add: square_nth)
    then show "x ! a ! b = y ! a ! b" using am by (rule assms(3) [rotated])
  qed
qed

lemma fold_relax_ref_eq:
  assumes "square (nat (n + 1)) dm" "i \<in> set (vertices n)" "dm ! k ! k = 0"
  shows "fold (relax_ref k i) (vertices n) dm = relax_row n k i dm"
proof (rule matrix_eqI)
  have im: "i < nat (n + 1)" using assms(2) by (rule vertices_bound)
  have b: "\<forall>j \<in> set (vertices n). j < nat (n + 1)" by (simp add: vertices_bound)
  show "square (nat (n + 1)) (fold (relax_ref k i) (vertices n) dm)"
    using assms(1) by (rule square_fold_relax_ref)
  show "square (nat (n + 1)) (relax_row n k i dm)"
    using assms(1) by (rule square_relax_row)
  fix a b
  show "fold (relax_ref k i) (vertices n) dm ! a ! b = relax_row n k i dm ! a ! b"
    using nth_fold_relax_ref [OF assms(1) im b distinct_vertices assms(3)]
      nth_relax_row [OF assms(1) im] assms(3)
    by simp
qed

subsection \<open>Invariants of the outer loop\<close>

lemma fw_inv_relax_through:
  assumes "fw_inv n dm" "k \<in> set (vertices n)"
  shows "fw_inv n (relax_through n k dm)"
proof -
  let ?V = "set (vertices n)"
  have sq: "square (nat (n + 1)) dm" and kk: "dm ! k ! k = 0"
    and nn: "\<And>a b. a \<in> ?V \<Longrightarrow> b \<in> ?V \<Longrightarrow> 0 \<le> dm ! a ! b"
    and sym: "\<And>a b. a \<in> ?V \<Longrightarrow> b \<in> ?V \<Longrightarrow> dm ! a ! b = dm ! b ! a"
    and dg: "\<And>a. a \<in> ?V \<Longrightarrow> dm ! a ! a = 0"
    using assms by (auto simp: fw_inv_def)
  have k0: "0 \<le> dm ! k ! k" by (simp add: kk)
  note nth = nth_relax_through [OF sq k0]
  have "square (nat (n + 1)) (relax_through n k dm)"
    using sq by (rule square_relax_through)
  moreover have "0 \<le> relax_through n k dm ! a ! b \<and>
      relax_through n k dm ! a ! b = relax_through n k dm ! b ! a"
    if "a \<in> ?V" "b \<in> ?V" for a b
  proof -
    have "0 \<le> dm ! a ! k + dm ! k ! b"
      using nn [OF that(1) assms(2)] nn [OF assms(2) that(2)] by (rule add_nonneg_nonneg)
    moreover have "dm ! a ! k + dm ! k ! b = dm ! b ! k + dm ! k ! a"
      using sym [OF that(1) assms(2)] sym [OF assms(2) that(2)] by (simp add: add.commute)
    ultimately show ?thesis
      using that nn [OF that] sym [OF that] by (simp add: nth)
  qed
  moreover have "relax_through n k dm ! a ! a = 0" if "a \<in> ?V" for a
  proof -
    have "0 \<le> dm ! a ! k + dm ! k ! a"
      using nn [OF that assms(2)] nn [OF assms(2) that] by (rule add_nonneg_nonneg)
    then show ?thesis
      using that dg [OF that] by (simp add: nth min_def)
  qed
  ultimately show ?thesis
    by (simp add: fw_inv_def)
qed

lemma triangle_relax_through:
  assumes inv: "fw_inv n dm" and k: "k \<in> set (vertices n)"
    and tri: "triangle_on n K dm" and sub: "K \<subseteq> set (vertices n)"
  shows "triangle_on n (insert k K) (relax_through n k dm)"
proof -
  let ?V = "set (vertices n)"
  let ?d = "\<lambda>a b. dm ! a ! b"
  let ?e = "\<lambda>a b. relax_through n k dm ! a ! b"
  have sq: "square (nat (n + 1)) dm" and kk: "?d k k = 0"
    and nn: "\<And>a b. a \<in> ?V \<Longrightarrow> b \<in> ?V \<Longrightarrow> 0 \<le> ?d a b"
    using inv k by (auto simp: fw_inv_def)
  have t: "\<And>i j m. i \<in> ?V \<Longrightarrow> j \<in> ?V \<Longrightarrow> m \<in> K \<Longrightarrow> ?d i j \<le> ?d i m + ?d m j"
    using tri by (simp add: triangle_on_def)
  have k0: "0 \<le> ?d k k" by (simp add: kk)
  have e: "\<And>a b. a \<in> ?V \<Longrightarrow> b \<in> ?V \<Longrightarrow> ?e a b = min (?d a b) (?d a k + ?d k b)"
    using nth_relax_through [OF sq k0] by simp
  have ek1: "\<And>a. a \<in> ?V \<Longrightarrow> ?e a k = ?d a k"
    using k kk by (simp add: e)
  have ek2: "\<And>b. b \<in> ?V \<Longrightarrow> ?e k b = ?d k b"
    using k kk by (simp add: e)
  have "?e i j \<le> ?e i m + ?e m j" if i: "i \<in> ?V" and j: "j \<in> ?V" and m: "m \<in> insert k K"
    for i j m
  proof (cases "m = k")
    case True
    have "?e i j \<le> ?d i k + ?d k j"
      by (simp add: e [OF i j])
    then show ?thesis
      using True by (simp add: ek1 [OF i] ek2 [OF j])
  next
    case False
    then have mK: "m \<in> K" using m by simp
    then have mV: "m \<in> ?V" using sub by auto
    have via: "?e i j \<le> ?d i k + ?d k j" and direct: "?e i j \<le> ?d i j"
      by (simp_all add: e [OF i j])
    have c1: "?e i j \<le> ?d i m + ?d m j"
      using direct t [OF i j mK] by (rule order_trans)
    have "?d i k + ?d k j \<le> ?d i k + (?d k m + ?d m j)"
      using t [OF k j mK] by (rule add_left_mono)
    then have c2: "?e i j \<le> (?d i k + ?d k m) + ?d m j"
      using via by (simp add: add.assoc)
    have "?d i k + ?d k j \<le> (?d i m + ?d m k) + ?d k j"
      using t [OF i k mK] by (rule add_right_mono)
    then have c3: "?e i j \<le> ?d i m + (?d m k + ?d k j)"
      using via by (simp add: add.assoc)
    have "0 \<le> ?d k m + ?d m k"
      using nn [OF k mV] nn [OF mV k] by (rule add_nonneg_nonneg)
    then have "?d i k + 0 \<le> ?d i k + (?d k m + ?d m k)"
      by (rule add_left_mono)
    then have "?d i k + ?d k j \<le> (?d i k + (?d k m + ?d m k)) + ?d k j"
      using add_right_mono by fastforce
    then have c4: "?e i j \<le> (?d i k + ?d k m) + (?d m k + ?d k j)"
      using via by (simp add: add.assoc)
    have "?e i m = ?d i m \<or> ?e i m = ?d i k + ?d k m"
      by (simp add: e [OF i mV] min_def)
    moreover have "?e m j = ?d m j \<or> ?e m j = ?d m k + ?d k j"
      by (simp add: e [OF mV j] min_def)
    ultimately show ?thesis
      using c1 c2 c3 c4 by auto
  qed
  then show ?thesis
    by (simp add: triangle_on_def)
qed

lemma fold_relax_through_inv:
  assumes "fw_inv n dm" "set ks \<subseteq> set (vertices n)"
    "triangle_on n K dm" "K \<subseteq> set (vertices n)"
  shows "fw_inv n (fold (relax_through n) ks dm) \<and>
         triangle_on n (K \<union> set ks) (fold (relax_through n) ks dm)"
  using assms
proof (induction ks arbitrary: dm K)
  case Nil
  then show ?case by simp
next
  case (Cons k ks)
  have k: "k \<in> set (vertices n)" and ks: "set ks \<subseteq> set (vertices n)"
    using Cons.prems(2) by simp_all
  have inv: "fw_inv n (relax_through n k dm)"
    using Cons.prems(1) k by (rule fw_inv_relax_through)
  have tri: "triangle_on n (insert k K) (relax_through n k dm)"
    using Cons.prems(1) k Cons.prems(3,4) by (rule triangle_relax_through)
  have sub: "insert k K \<subseteq> set (vertices n)"
    using k Cons.prems(4) by simp
  have "insert k K \<union> set ks = K \<union> set (k # ks)"
    by auto
  then show ?case
    using Cons.IH [OF inv ks tri sub] by simp
qed

subsection \<open>Initialisation\<close>

lemma init_inv_fw_inv: "init_inv n dm \<Longrightarrow> fw_inv n dm"
  by (auto simp: init_inv_def fw_inv_def dest: vertices_bound)

lemma square_init_matrix: "square (nat (n + 1)) (init_matrix n)"
  by (simp add: square_def init_matrix_def list_all_length)

lemma nth_init_matrix:
  "a < nat (n + 1) \<Longrightarrow> b < nat (n + 1) \<Longrightarrow> init_matrix n ! a ! b = Infinity"
  by (simp add: init_matrix_def)

lemma square_fold_diag:
  "square m dm \<Longrightarrow> square m (fold (\<lambda>i d. d[i := (d ! i)[i := 0]]) is dm)"
  by (induction "is" arbitrary: dm) (simp_all add: square_update)

lemma nth_fold_diag:
  assumes "square m dm" "\<forall>i \<in> set is. i < m"
  shows "fold (\<lambda>i d. d[i := (d ! i)[i := 0]]) is dm ! a ! b =
     (if a = b \<and> a \<in> set is then 0 else dm ! a ! b)"
  using assms
proof (induction "is" arbitrary: dm)
  case Nil
  then show ?case by simp
next
  case (Cons i "is")
  have im: "i < m" using Cons.prems(2) by simp
  have sq: "square m (dm[i := (dm ! i)[i := 0]])"
    using Cons.prems(1) by (rule square_update)
  show ?case
    using Cons.IH [OF sq] Cons.prems(2) nth_update [OF Cons.prems(1) im im]
    by auto
qed

lemma init_inv_set_diagonal: "init_inv n (set_diagonal n (init_matrix n))"
proof -
  have b: "\<forall>i \<in> set (vertices n). i < nat (n + 1)"
    by (simp add: vertices_bound)
  note nth = nth_fold_diag [OF square_init_matrix b]
  show ?thesis
    unfolding init_inv_def set_diagonal_def
    by (auto simp: nth nth_init_matrix square_fold_diag square_init_matrix)
qed

lemma py_index_bound: "py_index len i = Inr x \<Longrightarrow> x < len"
  by (auto simp: py_index_def split: if_splits)

lemma py_index_valid: "(\<exists>x. py_index (nat (n + 1)) i = Inr x) = valid_index n i"
  by (auto simp: py_index_def valid_index_def)

lemma add_edge_Inr:
  assumes "square m dm" "add_edge (u, v, w) dm = Inr dm'"
  obtains iu iv where "py_index m u = Inr iu" "py_index m v = Inr iv" "iu < m" "iv < m"
    "dm' = (dm[iu := (dm ! iu)[iv := min (dm ! iu ! iv) (Finite w)]])
             [iv := ((dm[iu := (dm ! iu)[iv := min (dm ! iu ! iv) (Finite w)]]) ! iv)
                [iu := min ((dm[iu := (dm ! iu)[iv := min (dm ! iu ! iv) (Finite w)]]) ! iv ! iu)
                   (Finite w)]]"
proof -
  have len: "length dm = m" using assms(1) by (simp add: square_def)
  obtain iu where iu: "py_index m u = Inr iu" "iu < m"
    using assms(2) by (cases "py_index m u") (auto simp: add_edge_def len dest: py_index_bound)
  have rl: "length (dm ! iu) = m" using assms(1) iu(2) by (rule square_nth)
  obtain iv where iv: "py_index m v = Inr iv" "iv < m"
    using assms(2) iu by (cases "py_index m v") (auto simp: add_edge_def len rl dest: py_index_bound)
  let ?dm1 = "dm[iu := (dm ! iu)[iv := min (dm ! iu ! iv) (Finite w)]]"
  have sq1: "square m ?dm1" using assms(1) by (rule square_update)
  have rl1: "length (?dm1 ! iv) = m" using sq1 iv(2) by (rule square_nth)
  have "dm' = ?dm1[iv := (?dm1 ! iv)[iu := min (?dm1 ! iv ! iu) (Finite w)]]"
    using assms(2) iu iv rl1 by (simp add: add_edge_def len rl Let_def)
  then show ?thesis
    using that iu iv by blast
qed

lemma add_edge_Inl:
  assumes "square m dm"
  shows "(\<exists>dm'. add_edge (u, v, w) dm = Inr dm') =
         ((\<exists>x. py_index m u = Inr x) \<and> (\<exists>x. py_index m v = Inr x))"
proof
  assume "\<exists>dm'. add_edge (u, v, w) dm = Inr dm'"
  then obtain dm' where "add_edge (u, v, w) dm = Inr dm'" ..
  from add_edge_Inr [OF assms this] show "(\<exists>x. py_index m u = Inr x) \<and> (\<exists>x. py_index m v = Inr x)"
    by metis
next
  assume "(\<exists>x. py_index m u = Inr x) \<and> (\<exists>x. py_index m v = Inr x)"
  then obtain iu iv where iu: "py_index m u = Inr iu" and iv: "py_index m v = Inr iv"
    by blast
  have len: "length dm = m" using assms by (simp add: square_def)
  have rl: "length (dm ! iu) = m" using assms py_index_bound [OF iu] by (rule square_nth)
  let ?dm1 = "dm[iu := (dm ! iu)[iv := min (dm ! iu ! iv) (Finite w)]]"
  have sq1: "square m ?dm1" using assms by (rule square_update)
  have rl1: "length (?dm1 ! iv) = m" using sq1 py_index_bound [OF iv] by (rule square_nth)
  show "\<exists>dm'. add_edge (u, v, w) dm = Inr dm'"
    using iu iv rl1 by (simp add: add_edge_def len rl Let_def)
qed

lemma square_add_edge:
  assumes "square m dm" "add_edge e dm = Inr dm'"
  shows "square m dm'"
proof -
  obtain u v w where e: "e = (u, v, w)" by (cases e)
  from add_edge_Inr [OF assms(1) assms(2) [unfolded e]] show ?thesis
    using assms(1) by (metis square_update)
qed

lemma init_inv_add_edge:
  assumes "init_inv n dm" "0 \<le> w" "add_edge (u, v, w) dm = Inr dm'"
  shows "init_inv n dm'"
proof -
  let ?m = "nat (n + 1)"
  have sq: "square ?m dm"
    and nn: "\<And>a b. a < ?m \<Longrightarrow> b < ?m \<Longrightarrow> 0 \<le> dm ! a ! b"
    and sym: "\<And>a b. a < ?m \<Longrightarrow> b < ?m \<Longrightarrow> dm ! a ! b = dm ! b ! a"
    and dg: "\<And>a. a \<in> set (vertices n) \<Longrightarrow> dm ! a ! a = 0"
    using assms(1) by (auto simp: init_inv_def)
  obtain iu iv where iu: "iu < ?m" and iv: "iv < ?m"
    and dm': "dm' = (dm[iu := (dm ! iu)[iv := min (dm ! iu ! iv) (Finite w)]])
             [iv := ((dm[iu := (dm ! iu)[iv := min (dm ! iu ! iv) (Finite w)]]) ! iv)
                [iu := min ((dm[iu := (dm ! iu)[iv := min (dm ! iu ! iv) (Finite w)]]) ! iv ! iu)
                   (Finite w)]]"
    using add_edge_Inr [OF sq assms(3)] by metis
  define A where "A = min (dm ! iu ! iv) (Finite w)"
  define dm1 where "dm1 = dm[iu := (dm ! iu)[iv := A]]"
  have sq1: "square ?m dm1" unfolding dm1_def using sq by (rule square_update)
  have n1: "\<And>a b. dm1 ! a ! b = (if a = iu \<and> b = iv then A else dm ! a ! b)"
    unfolding dm1_def using nth_update [OF sq iu iv] by blast
  have dm'': "dm' = dm1[iv := (dm1 ! iv)[iu := min (dm1 ! iv ! iu) (Finite w)]]"
    unfolding dm1_def A_def by (rule dm')
  have n2: "\<And>a b. dm' ! a ! b =
      (if a = iv \<and> b = iu then min (dm1 ! iv ! iu) (Finite w) else dm1 ! a ! b)"
    unfolding dm'' using nth_update [OF sq1 iv iu] by blast
  have w0: "(0::dist_val) \<le> Finite w" using assms(2) by simp
  have sq': "square ?m dm'"
    unfolding dm'' using sq1 by (rule square_update)
  have d1vu: "dm1 ! iv ! iu = (if iv = iu then A else dm ! iu ! iv)"
    using sym [OF iv iu] by (simp add: n1)
  have mA: "min (dm1 ! iv ! iu) (Finite w) = A"
    unfolding d1vu by (simp add: A_def)
  have n3: "dm' ! a ! b =
      (if (a = iv \<and> b = iu) \<or> (a = iu \<and> b = iv) then A else dm ! a ! b)" for a b
  proof -
    have s1: "dm' ! a ! b = (if a = iv \<and> b = iu then A else dm1 ! a ! b)"
      by (simp only: n2 mA)
    have "dm' ! a ! b =
        (if a = iv \<and> b = iu then A else (if a = iu \<and> b = iv then A else dm ! a ! b))"
      by (simp only: s1 n1)
    then show ?thesis
      by (simp only: if_split) blast
  qed
  have A0: "0 \<le> A"
    using nn [OF iu iv] w0 by (simp add: A_def)
  have "0 \<le> dm' ! a ! b \<and> dm' ! a ! b = dm' ! b ! a" if "a < ?m" "b < ?m" for a b
  proof (cases "(a = iv \<and> b = iu) \<or> (a = iu \<and> b = iv)")
    case True
    then have "dm' ! a ! b = A" "dm' ! b ! a = A"
      unfolding n3 by auto
    then show ?thesis using A0 by simp
  next
    case False
    then have "dm' ! a ! b = dm ! a ! b" "dm' ! b ! a = dm ! b ! a"
      unfolding n3 by auto
    then show ?thesis using nn [OF that] sym [OF that] by simp
  qed
  moreover have "dm' ! a ! a = 0" if "a \<in> set (vertices n)" for a
  proof (cases "a = iu \<and> a = iv")
    case True
    then have "dm ! iu ! iv = 0" using dg [OF that] by auto
    then have "A = 0" using w0 by (simp add: A_def min_def)
    then show ?thesis using True by (simp add: n3)
  next
    case False
    then show ?thesis using dg [OF that] by (auto simp: n3)
  qed
  ultimately show ?thesis
    using sq' by (simp add: init_inv_def)
qed

lemma init_inv_add_edges:
  assumes "init_inv n dm" "list_all (\<lambda>(u, v, w). 0 \<le> w) edges" "add_edges edges dm = Inr dm'"
  shows "init_inv n dm'"
  using assms
proof (induction edges arbitrary: dm)
  case Nil
  then show ?case by simp
next
  case (Cons e es)
  obtain u v w where e: "e = (u, v, w)" by (cases e)
  obtain dm1 where d1: "add_edge (u, v, w) dm = Inr dm1" and rest: "add_edges es dm1 = Inr dm'"
    using Cons.prems(3) e by (cases "add_edge (u, v, w) dm") auto
  have "0 \<le> w" using Cons.prems(2) e by simp
  with Cons.prems(1) have "init_inv n dm1" using d1 by (rule init_inv_add_edge)
  then show ?case
    using Cons.IH rest Cons.prems(2) by simp
qed


lemma add_edges_returns:
  assumes "square (nat (n + 1)) dm"
  shows "(\<exists>dm'. add_edges edges dm = Inr dm') =
         list_all (\<lambda>(u, v, w). valid_index n u \<and> valid_index n v) edges"
  using assms
proof (induction edges arbitrary: dm)
  case Nil
  then show ?case by simp
next
  case (Cons e es)
  obtain u v w where e: "e = (u, v, w)" by (cases e)
  show ?case
  proof (cases "add_edge (u, v, w) dm")
    case (Inl err)
    then have "\<not> (valid_index n u \<and> valid_index n v)"
      using add_edge_Inl [OF Cons.prems, of u v w] by (simp add: py_index_valid)
    then show ?thesis
      using Inl e by auto
  next
    case (Inr dm1)
    then have "valid_index n u \<and> valid_index n v"
      using add_edge_Inl [OF Cons.prems, of u v w] by (simp add: py_index_valid)
    moreover have "square (nat (n + 1)) dm1"
      using Cons.prems Inr by (rule square_add_edge)
    ultimately show ?thesis
      using Inr e Cons.IH by simp
  qed
qed

lemma square_set_diagonal: "square (nat (n + 1)) (set_diagonal n (init_matrix n))"
  by (simp add: set_diagonal_def square_fold_diag square_init_matrix)

lemma floyd_warshall_returns:
  "(\<exists>dm. floyd_warshall n edges = Inr dm) =
   list_all (\<lambda>(u, v, w). valid_index n u \<and> valid_index n v) edges"
proof -
  have "(\<exists>dm. floyd_warshall n edges = Inr dm) =
        (\<exists>dm. add_edges edges (set_diagonal n (init_matrix n)) = Inr dm)"
    by (cases "add_edges edges (set_diagonal n (init_matrix n))")
       (simp_all add: floyd_warshall_def)
  then show ?thesis
    by (simp add: add_edges_returns [OF square_set_diagonal])
qed

lemma py_index_error: "py_index len i = Inl err \<Longrightarrow> err = IndexError"
  by (auto simp: py_index_def split: if_splits)

lemma add_edge_error: "add_edge e dm = Inl err \<Longrightarrow> err = IndexError"
  by (auto simp: add_edge_def Let_def split: prod.splits sum.splits dest: py_index_error)

lemma add_edges_error: "add_edges edges dm = Inl err \<Longrightarrow> err = IndexError"
  by (induction edges arbitrary: dm) (auto split: sum.splits dest: add_edge_error)

lemma floyd_warshall_error:
  "floyd_warshall n edges = Inl err \<Longrightarrow> err = IndexError"
  by (auto simp: floyd_warshall_def split: sum.splits dest: add_edges_error)

lemma floyd_warshall_inv:
  assumes "list_all (\<lambda>(u, v, w). 0 \<le> w) edges" "floyd_warshall n edges = Inr dm"
  shows "fw_inv n dm \<and> triangle_on n (set (vertices n)) dm"
proof -
  obtain dm0 where dm0: "add_edges edges (set_diagonal n (init_matrix n)) = Inr dm0"
    and dm: "dm = fold (relax_through n) (vertices n) dm0"
    using assms(2)
    by (cases "add_edges edges (set_diagonal n (init_matrix n))")
       (auto simp: floyd_warshall_def)
  have "init_inv n dm0"
    using init_inv_set_diagonal assms(1) dm0 by (rule init_inv_add_edges)
  then have inv: "fw_inv n dm0" by (rule init_inv_fw_inv)
  have "triangle_on n {} dm0" by (simp add: triangle_on_def)
  from fold_relax_through_inv [OF inv subset_refl this] show ?thesis
    by (simp add: dm)
qed

lemma fold_relax_ref_rows_eq:
  assumes "square (nat (n + 1)) dm" "dm ! k ! k = 0" "set is \<subseteq> set (vertices n)"
  shows "fold (\<lambda>i. fold (relax_ref k i) (vertices n)) is dm = fold (relax_row n k) is dm"
  using assms
proof (induction "is" arbitrary: dm)
  case Nil
  then show ?case by simp
next
  case (Cons i "is")
  have iV: "i \<in> set (vertices n)" using Cons.prems(3) by simp
  have e: "fold (relax_ref k i) (vertices n) dm = relax_row n k i dm"
    using Cons.prems(1) iV Cons.prems(2) by (rule fold_relax_ref_eq)
  have sq: "square (nat (n + 1)) (relax_row n k i dm)"
    using Cons.prems(1) by (rule square_relax_row)
  have k0: "0 \<le> dm ! k ! k" using Cons.prems(2) by simp
  have kk: "relax_row n k i dm ! k ! k = 0"
    using Cons.prems(2) by (auto simp: nth_relax_row [OF Cons.prems(1) vertices_bound [OF iV] k0])
  show ?case
    using Cons.IH [OF sq kk] Cons.prems(3) by (simp add: e)
qed

lemma relax_through_ref_eq:
  assumes "fw_inv n dm" "k \<in> set (vertices n)"
  shows "relax_through_ref n k dm = relax_through n k dm"
  unfolding relax_through_ref_def relax_through_def
  using assms by (intro fold_relax_ref_rows_eq) (simp_all add: fw_inv_def)

lemma fold_relax_through_ref_eq:
  assumes "fw_inv n dm" "set ks \<subseteq> set (vertices n)"
  shows "fold (relax_through_ref n) ks dm = fold (relax_through n) ks dm"
  using assms
proof (induction ks arbitrary: dm)
  case Nil
  then show ?case by simp
next
  case (Cons k ks)
  have k: "k \<in> set (vertices n)" using Cons.prems(2) by simp
  have "fw_inv n (relax_through n k dm)"
    using Cons.prems(1) k by (rule fw_inv_relax_through)
  then show ?case
    using Cons.IH Cons.prems(2) by (simp add: relax_through_ref_eq [OF Cons.prems(1) k])
qed

lemma in_vertices: "1 \<le> i \<Longrightarrow> i \<le> n \<Longrightarrow> nat i \<in> set (vertices n)"
  by (auto simp: vertices_def)

lemma fw_example: "floyd_warshall 3 [(1, 2, 3), (2, 3, 4), (1, 3, 10)] =
  Inr [[Infinity, Infinity, Infinity, Infinity],
      [Infinity, Finite 0, Finite 3, Finite 7],
      [Infinity, Finite 3, Finite 0, Finite 4],
      [Infinity, Finite 7, Finite 4, Finite 0]]"
  by code_simp

section \<open>The parser: what a line can do\<close>

lemma digit_not_space: "is_digit c \<Longrightarrow> \<not> is_space c"
  by (auto simp: is_digit_def is_space_def Let_def)

lemma digit_codes:
  "is_digit c \<Longrightarrow> c \<noteq> CHR ''_''" "is_digit c \<Longrightarrow> c \<noteq> CHR ''-''" "is_digit c \<Longrightarrow> c \<noteq> CHR ''+''"
  by (auto simp: is_digit_def code_def)

lemma digit_value_nonneg: "is_digit c \<Longrightarrow> 0 \<le> digit_value c"
  by (simp add: is_digit_def digit_value_def Let_def)

lemma fold_digits_nonneg:
  "list_all is_digit ds \<Longrightarrow> 0 \<le> acc \<Longrightarrow> 0 \<le> fold (\<lambda>c acc. acc * 10 + digit_value c) ds acc"
  by (induction ds arbitrary: acc) (simp_all add: digit_value_nonneg)

lemma digits_value_nonneg: "list_all is_digit ds \<Longrightarrow> 0 \<le> digits_value ds"
  by (simp add: digits_value_def fold_digits_nonneg)

lemma strip_digits:
  assumes "ds \<noteq> []" "list_all is_digit ds"
  shows "strip ds = ds"
proof -
  have "is_digit (hd ds)" "is_digit (last ds)"
    using assms by (simp_all add: list_all_iff)
  then have "\<not> is_space (hd ds)" "\<not> is_space (last ds)"
    by (simp_all add: digit_not_space)
  then have "dropWhile is_space ds = ds" "dropWhile is_space (rev ds) = rev ds"
    using assms(1) by (simp_all add: dropWhile_eq_self_iff hd_rev)
  then show ?thesis
    by (simp add: strip_def lstrip_def rstrip_def)
qed

lemma underscore_groups_digits:
  "list_all is_digit ds \<Longrightarrow> underscore_groups cur ds = [rev cur @ ds]"
  by (induction ds arbitrary: cur) (auto dest: digit_codes)

lemma int_of_str_digits:
  assumes "ds \<noteq> []" "list_all is_digit ds"
  shows "int_of_str ds = Some (digits_value ds)"
proof -
  have "is_digit (hd ds)" using assms by (cases ds) auto
  then have "hd ds \<noteq> CHR ''-''" "hd ds \<noteq> CHR ''+''"
    by (auto dest: digit_codes)
  then show ?thesis
    using assms by (simp add: int_of_str_def strip_digits underscore_groups_digits Let_def)
qed

lemma strip_minus_digits:
  assumes "ds \<noteq> []" "list_all is_digit ds"
  shows "strip (CHR ''-'' # ds) = CHR ''-'' # ds"
proof -
  have "\<not> is_space (CHR ''-'')"
    by (simp add: is_space_def code_def)
  moreover have "is_digit (last ds)"
    using assms by (simp add: list_all_iff)
  then have "\<not> is_space (last ds)"
    by (rule digit_not_space)
  ultimately have "dropWhile is_space (CHR ''-'' # ds) = CHR ''-'' # ds"
    "dropWhile is_space (rev (CHR ''-'' # ds)) = rev (CHR ''-'' # ds)"
    using assms(1) by (simp_all add: dropWhile_eq_self_iff hd_rev hd_append)
  then show ?thesis
    by (simp add: strip_def lstrip_def rstrip_def)
qed

lemma int_of_str_minus_digits:
  assumes "ds \<noteq> []" "list_all is_digit ds"
  shows "int_of_str (CHR ''-'' # ds) = Some (- digits_value ds)"
  using assms
  by (simp add: int_of_str_def strip_minus_digits underscore_groups_digits Let_def del: strip_def)

lemma py_int_str_digits:
  "ds \<noteq> [] \<Longrightarrow> list_all is_digit ds \<Longrightarrow> py_int_str ds = Inr (digits_value ds)"
  by (simp add: py_int_str_def int_of_str_digits)

lemma is_int_text_py_int: "is_int_text v \<Longrightarrow> \<exists>i. py_int_str v = Inr i"
proof (cases "v \<noteq> [] \<and> hd v = CHR ''-''")
  case True
  assume "is_int_text v"
  then have "tl v \<noteq> []" "list_all is_digit (tl v)"
    using True by (simp_all add: is_int_text_def Let_def)
  moreover have "v = CHR ''-'' # tl v"
    using True by (cases v) auto
  ultimately show ?thesis
    using int_of_str_minus_digits [of "tl v"] by (simp add: py_int_str_def)
next
  case False
  assume "is_int_text v"
  then have "v \<noteq> []" "list_all is_digit v"
    using False by (auto simp: is_int_text_def Let_def)
  then show ?thesis
    by (simp add: py_int_str_digits)
qed

lemma coerce_value_total: "\<exists>val. coerce_value v = Inr val"
  using is_int_text_py_int [of "strip v"]
  by (auto simp: coerce_value_def Let_def)

lemma takeWhile_digits: "list_all is_digit (takeWhile is_digit s)"
  by (simp add: list_all_iff) (meson set_takeWhileD)

lemma pair_at_digits:
  assumes "pair_at s = Some (g1, g2)"
  shows "g1 \<noteq> [] \<and> list_all is_digit g1 \<and> g2 \<noteq> [] \<and> list_all is_digit g2"
  using assms
  by (auto simp: pair_at_def Let_def takeWhile_digits split: list.splits if_splits)

lemma PAIR_search_digits:
  "PAIR_search s = Some (g1, g2) \<Longrightarrow>
   g1 \<noteq> [] \<and> list_all is_digit g1 \<and> g2 \<noteq> [] \<and> list_all is_digit g2"
  by (induction s) (auto split: option.splits dest: pair_at_digits)

lemma keyword_at_digits: "keyword_at kw s = Some g \<Longrightarrow> g \<noteq> [] \<and> list_all is_digit g"
  by (auto simp: keyword_at_def Let_def takeWhile_digits split: if_splits)

lemma keyword_search_digits: "keyword_search kw s = Some g \<Longrightarrow> g \<noteq> [] \<and> list_all is_digit g"
  by (induction s) (auto split: option.splits dest: keyword_at_digits)

lemma edge_step_digits:
  assumes "PAIR_search line = Some m_pair" "COST_search line = Some m_cost"
    "DEM_search line = Some m_dem"
  shows "edge_step m_pair m_cost m_dem st =
     Inr (st\<lparr>st_edges := st_edges st @
        [\<lparr>edge_u = digits_value (fst m_pair), edge_v = digits_value (snd m_pair),
          edge_cost = digits_value m_cost, edge_demand = digits_value m_dem,
          edge_required = True\<rparr>]\<rparr>)"
proof -
  obtain g1 g2 where mp: "m_pair = (g1, g2)" by (cases m_pair)
  have "g1 \<noteq> [] \<and> list_all is_digit g1 \<and> g2 \<noteq> [] \<and> list_all is_digit g2"
    using assms(1) mp by (simp add: PAIR_search_digits)
  moreover have "m_cost \<noteq> [] \<and> list_all is_digit m_cost"
    using assms(2) by (simp add: COST_search_def keyword_search_digits)
  moreover have "m_dem \<noteq> [] \<and> list_all is_digit m_dem"
    using assms(3) by (simp add: DEM_search_def keyword_search_digits)
  ultimately show ?thesis
    by (simp add: edge_step_def mp py_int_str_digits)
qed

lemma header_step_cases:
  obtains "header_step line st = Inr st"
  | k val where "header_step line st = Inr (st\<lparr>st_meta := AList.update k val (st_meta st)\<rparr>)"
proof (cases "HEADER_match line")
  case None
  then show ?thesis using that(1) by (simp add: header_step_def)
next
  case (Some kv)
  obtain k v where kv: "kv = (k, v)" by (cases kv)
  obtain val where "coerce_value v = Inr val" using coerce_value_total by blast
  then show ?thesis using that(2) Some kv by (simp add: header_step_def)
qed

text \<open>What one pass of the loop can do to the state.\<close>

lemma parse_line_cases:
  obtains (skip) "parse_line raw st = Inr st" "\<not> marker_line raw"
  | (marker) "parse_line raw st = Inr (st\<lparr>in_req_list := True, seen_req_header := True\<rparr>)"
      "marker_line raw"
  | (edge) e where "parse_line raw st = Inr (st\<lparr>st_edges := st_edges st @ [e]\<rparr>)"
      "emitted_edge e" "\<not> marker_line raw"
  | (header) k val b where
      "parse_line raw st = Inr (st\<lparr>in_req_list := b, st_meta := AList.update k val (st_meta st)\<rparr>)"
      "\<not> marker_line raw"
  | (leave) "parse_line raw st = Inr (st\<lparr>in_req_list := False\<rparr>)" "\<not> marker_line raw"
proof -
  let ?line = "strip (strip_comment raw)"
  show ?thesis
  proof (cases "?line = []")
    case True
    then have "\<not> marker_line raw"
      by (simp add: marker_line_def is_section_start_def upper_def)
    then show ?thesis
      using True skip by (simp add: parse_line_def)
  next
    case ne: False
    show ?thesis
    proof (cases "is_section_start ?line")
      case True
      then show ?thesis
        using ne marker by (simp add: parse_line_def marker_line_def)
    next
      case nm: False
      then have nm': "\<not> marker_line raw" by (simp add: marker_line_def)
      show ?thesis
      proof (cases "in_req_list st")
        case False
        then have pl: "parse_line raw st = header_step ?line st"
          using ne nm by (simp add: parse_line_def)
        show ?thesis
        proof (cases rule: header_step_cases [of ?line st])
          case 1
          then show ?thesis using pl skip nm' by simp
        next
          case (2 k val)
          then have "parse_line raw st =
              Inr (st\<lparr>in_req_list := in_req_list st, st_meta := AList.update k val (st_meta st)\<rparr>)"
            using pl by simp
          then show ?thesis using header nm' by blast
        qed
      next
        case inreq: True
        show ?thesis
        proof (cases "\<exists>a b c. PAIR_search ?line = Some a \<and> COST_search ?line = Some b \<and>
            DEM_search ?line = Some c")
          case True
          then obtain a b c where m: "PAIR_search ?line = Some a" "COST_search ?line = Some b"
            "DEM_search ?line = Some c" by blast
          let ?e = "\<lparr>edge_u = digits_value (fst a), edge_v = digits_value (snd a),
            edge_cost = digits_value b, edge_demand = digits_value c, edge_required = True\<rparr>"
          have pl: "parse_line raw st = Inr (st\<lparr>st_edges := st_edges st @ [?e]\<rparr>)"
            using ne nm inreq m edge_step_digits [OF m] by (simp add: parse_line_def Let_def)
          obtain g1 g2 where a: "a = (g1, g2)" by (cases a)
          have "list_all is_digit g1" "list_all is_digit g2"
            using PAIR_search_digits m(1) a by blast+
          moreover have "list_all is_digit b" "list_all is_digit c"
            using m(2,3) keyword_search_digits by (auto simp: COST_search_def DEM_search_def)
          ultimately have "emitted_edge ?e"
            by (simp add: emitted_edge_def a digits_value_nonneg)
          then show ?thesis using pl edge nm' by blast
        next
          case noedge: False
          show ?thesis
          proof (cases "HEADER_match ?line")
            case None
            then have "parse_line raw st = Inr st"
              using ne nm inreq noedge
              by (auto simp: parse_line_def Let_def split: option.splits)
            then show ?thesis using skip nm' by blast
          next
            case (Some kv)
            then have pl: "parse_line raw st = header_step ?line (st\<lparr>in_req_list := False\<rparr>)"
              using ne nm inreq noedge
              by (auto simp: parse_line_def Let_def split: option.splits)
            show ?thesis
            proof (cases rule: header_step_cases [of ?line "st\<lparr>in_req_list := False\<rparr>"])
              case 1
              then show ?thesis using pl leave nm' by simp
            next
              case (2 k val)
              then have "parse_line raw st =
                Inr (st\<lparr>in_req_list := False, st_meta := AList.update k val (st_meta st)\<rparr>)"
                using pl by simp
              then show ?thesis using header nm' by blast
            qed
          qed
        qed
      qed
    qed
  qed
qed

lemma parse_line_props:
  "\<exists>st'. parse_line raw st = Inr st' \<and>
     seen_req_header st' = (seen_req_header st \<or> marker_line raw) \<and>
     (list_all emitted_edge (st_edges st) \<longrightarrow> list_all emitted_edge (st_edges st'))"
  by (cases rule: parse_line_cases [of raw st]) auto

lemma parse_lines_props:
  "\<exists>st'. parse_lines raws st = Inr st' \<and>
     seen_req_header st' = (seen_req_header st \<or> list_ex marker_line raws) \<and>
     (list_all emitted_edge (st_edges st) \<longrightarrow> list_all emitted_edge (st_edges st'))"
proof (induction raws arbitrary: st)
  case Nil
  then show ?case by simp
next
  case (Cons raw raws)
  obtain st1 where st1: "parse_line raw st = Inr st1"
    "seen_req_header st1 = (seen_req_header st \<or> marker_line raw)"
    "list_all emitted_edge (st_edges st) \<longrightarrow> list_all emitted_edge (st_edges st1)"
    using parse_line_props by blast
  obtain st' where st': "parse_lines raws st1 = Inr st'"
    "seen_req_header st' = (seen_req_header st1 \<or> list_ex marker_line raws)"
    "list_all emitted_edge (st_edges st1) \<longrightarrow> list_all emitted_edge (st_edges st')"
    using Cons.IH by blast
  show ?case
    using st1 st' by auto
qed

lemma parse_gdb_dat_returns:
  obtains st where "parse_lines (splitlines text) initial_pstate = Inr st"
    "parse_gdb_dat text = Inr \<lparr>meta_raw = st_meta st, meta = canonical (st_meta st),
       required_edges = st_edges st, warnings = make_warnings st\<rparr>"
    "seen_req_header st = list_ex marker_line (splitlines text)"
    "list_all emitted_edge (st_edges st)"
proof -
  obtain st where st: "parse_lines (splitlines text) initial_pstate = Inr st"
    "seen_req_header st = (seen_req_header initial_pstate \<or> list_ex marker_line (splitlines text))"
    "list_all emitted_edge (st_edges initial_pstate) \<longrightarrow> list_all emitted_edge (st_edges st)"
    using parse_lines_props by blast
  show ?thesis
    using that [of st] st by (simp add: parse_gdb_dat_def initial_pstate_def)
qed

lemma make_warnings_empty:
  assumes "seen_req_header st" "map_of (st_meta st) ''ARISTAS_REQ'' = Some (HInt (int (length (st_edges st))))"
  shows "make_warnings st = []"
proof -
  have "st_meta st \<noteq> []" using assms(2) by auto
  then show ?thesis
    using assms by (simp add: make_warnings_def canonical_def)
qed


section \<open>Assembling the instance: isolated vertices and the reachability check\<close>














lemma unreachable_from_error:
  assumes "py_index (length dm) depot = Inl err" "is \<noteq> []"
  shows "unreachable_from dm depot is = Inl err"
  using assms by (cases "is") simp_all





section \<open>The guardrail: when it returns a report\<close>

lemma example_graph:
  "build_graph ([example_row 0 1 0 0] @ [example_row 1 2 0 1]) =
     \<lparr>g_nodes = [0, 1, 2], g_arcs = [(0, 1, 0), (1, 2, 1)]\<rparr>"
  by (simp add: build_graph_def add_arc_def add_node_def example_row_def py_trunc_def)

lemma example_not_strongly_connected:
  "is_strongly_connected \<lparr>g_nodes = [0, 1, 2], g_arcs = [(0, 1, 0), (1, 2, 1)]\<rparr> = Inr False"
proof -
  have "(2, 0) \<notin> {(0::int, 1::int), (1, 2)}\<^sup>*"
    by (auto elim: converse_rtranclE)
  then show ?thesis
    by (simp add: is_strongly_connected_def arc_pairs_def)
qed

lemma example_row_sel:
  "row_travel_time (example_row a b q c) = c" "row_demand (example_row a b q c) = q"
  "row_u (example_row a b q c) = a" "row_v (example_row a b q c) = b"
  by (simp_all add: example_row_def)

lemma example_libs_sel:
  "all_pairs_dijkstra_path_length (example_libs table triple) G = Inr table"
  "random_draw (example_libs table triple) t = triple"
  by (simp_all add: example_libs_def)

lemma example_no_violation:
  "sample_triples example_guardrail (example_libs path_table (0, 1, 2)) path_table [0, 1, 2] ts rep
     = Inr rep"
  by (induction ts)
     (simp_all add: random_choice_def example_libs_sel lookup_dist_def path_table_def)




lemma example_no_violation_any_draw:
  assumes "\<And>t. draw t \<in> {0, 1, 2} \<times> {0, 1, 2} \<times> {0, 1, 2}"
  shows "sample_triples example_guardrail
       \<lparr>all_pairs_dijkstra_path_length = (\<lambda>G. Inr path_table), random_draw = draw\<rparr>
       path_table [0, 1, 2] ts rep = Inr rep"
proof (induction ts)
  case Nil
  then show ?case by simp
next
  case (Cons t ts)
  obtain u v w where d: "draw t = (u, v, w)" by (cases "draw t")
  then have m: "u \<in> {0, 1, 2}" "v \<in> {0, 1, 2}" "w \<in> {0, 1, 2}"
    using assms [of t] by auto
  have "\<not> lookup_dist example_guardrail path_table u w >
      lookup_dist example_guardrail path_table u v + lookup_dist example_guardrail path_table v w
        + 1 / 10000000"
    using m by (auto simp: lookup_dist_def path_table_def example_guardrail_def)
  then show ?case
    using Cons by (simp add: random_choice_def d Let_def)
qed

section \<open>The example inputs, evaluated\<close>

lemma parse_example2: "parse_gdb_dat (example_text ''2'') = Inr (example_parsed 2)"
  by code_simp

lemma marker_example: "list_ex marker_line (splitlines (example_text ''2''))"
  by code_simp






lemma build_example2:
  "build_carp_instance (example_parsed 2) =
   Inr \<lparr>b_name = None, b_n_vertices = 2, b_depot = 1, b_capacity = 40, b_n_tasks = 2,
        b_tasks = example_edges,
        b_dist = [[Infinity, Infinity, Infinity],
                  [Infinity, Finite 0, Finite 3],
                  [Infinity, Finite 3, Finite 0]]\<rparr>"
  by code_simp

section \<open>Claims about \<open>floyd_warshall\<close>\<close>

text \<open>
  C6. For every vertex count \<open>n\<close> and every list of edges with non-negative weights, the
  matrix \<open>floyd_warshall\<close> returns has \<open>dist[i][i] = 0\<close> for all \<open>i\<close> in \<open>1..n\<close> and
  \<open>dist[i][j] = dist[j][i]\<close> for all \<open>i\<close>, \<open>j\<close> in \<open>1..n\<close>. (A matrix is returned
  exactly when every endpoint is an index Python accepts, lemma \<open>floyd_warshall_returns\<close>;
  otherwise the edge loop raises \<open>IndexError\<close>.)
\<close>

theorem floyd_warshall_diagonal_symmetric:
  assumes "list_all (\<lambda>(u, v, w). 0 \<le> w) edges" "floyd_warshall n edges = Inr dm"
    "1 \<le> i" "i \<le> n" "1 \<le> j" "j \<le> n"
  shows "dm ! nat i ! nat i = 0 \<and> dm ! nat i ! nat j = dm ! nat j ! nat i"
  using floyd_warshall_inv [OF assms(1,2)] in_vertices [OF assms(3,4)] in_vertices [OF assms(5,6)]
  by (simp add: fw_inv_def)

theorem floyd_warshall_diagonal_symmetric_witness:
  "\<exists>dm. floyd_warshall 3 [(1, 2, 3), (2, 3, 4), (1, 3, 10)] = Inr dm \<and>
     dm ! 1 ! 1 = 0 \<and> dm ! 1 ! 3 = dm ! 3 ! 1 \<and> dm ! 1 ! 3 = Finite 7"
proof -
  let ?edges = "[(1, 2, 3), (2, 3, 4), (1, 3, 10)] :: (int \<times> int \<times> int) list"
  have h: "list_all (\<lambda>(u, v, w). 0 \<le> w) ?edges" by simp
  from floyd_warshall_diagonal_symmetric [OF h fw_example, of 1 3] fw_example
  show ?thesis by simp
qed



text \<open>
  C8. Skipping the inner loop when \<open>dist[i][k]\<close> is infinite is a pure optimisation: for
  every vertex count \<open>n\<close> and every list of edges with non-negative weights,
  \<open>floyd_warshall\<close> returns exactly what the reference algorithm returns, which always
  executes \<open>dist[i][j] \<leftarrow> min(dist[i][j], dist[i][k] + dist[k][j])\<close> (the same matrix, or
  the same \<open>IndexError\<close> from the shared edge loop).
\<close>

theorem floyd_warshall_skip_refines:
  assumes "list_all (\<lambda>(u, v, w). 0 \<le> w) edges"
  shows "floyd_warshall n edges = floyd_warshall_ref n edges"
proof (cases "add_edges edges (set_diagonal n (init_matrix n))")
  case (Inl err)
  then show ?thesis by (simp add: floyd_warshall_def floyd_warshall_ref_def)
next
  case (Inr dm0)
  have "init_inv n dm0"
    using init_inv_set_diagonal assms Inr by (rule init_inv_add_edges)
  then have "fw_inv n dm0" by (rule init_inv_fw_inv)
  then have "fold (relax_through_ref n) (vertices n) dm0 = fold (relax_through n) (vertices n) dm0"
    by (rule fold_relax_through_ref_eq) simp
  then show ?thesis
    using Inr by (simp add: floyd_warshall_def floyd_warshall_ref_def)
qed

theorem floyd_warshall_skip_refines_witness:
  "floyd_warshall_ref 3 [(1, 2, 3), (2, 3, 4), (1, 3, 10)] =
   Inr [[Infinity, Infinity, Infinity, Infinity],
        [Infinity, Finite 0, Finite 3, Finite 7],
        [Infinity, Finite 3, Finite 0, Finite 4],
        [Infinity, Finite 7, Finite 4, Finite 0]]"
proof -
  let ?edges = "[(1, 2, 3), (2, 3, 4), (1, 3, 10)] :: (int \<times> int \<times> int) list"
  have h: "list_all (\<lambda>(u, v, w). 0 \<le> w) ?edges" by simp
  from floyd_warshall_skip_refines [OF h, of 3] fw_example
  show ?thesis by simp
qed

section \<open>Claims about the parser\<close>

text \<open>
  C9. For any input text in which the section-start marker is present (some line, after
  its comment and surrounding whitespace are removed, starts with \<open>LISTA_ARISTAS_REQ\<close> in
  any case) and the number of required edges parsed equals the count declared in the
  \<open>ARISTAS_REQ\<close> header, \<open>parse_gdb_dat\<close> returns an empty list of warnings.
\<close>

theorem parse_no_warnings:
  assumes "parse_gdb_dat text = Inr p"
    and "list_ex marker_line (splitlines text)"
    and "m_n_req (meta p) = Some (HInt (int (length (required_edges p))))"
  shows "warnings p = []"
proof -
  obtain st where st: "parse_gdb_dat text = Inr \<lparr>meta_raw = st_meta st, meta = canonical (st_meta st),
       required_edges = st_edges st, warnings = make_warnings st\<rparr>"
    "seen_req_header st = list_ex marker_line (splitlines text)"
    by (rule parse_gdb_dat_returns)
  have p: "p = \<lparr>meta_raw = st_meta st, meta = canonical (st_meta st),
       required_edges = st_edges st, warnings = make_warnings st\<rparr>"
    using assms(1) st(1) by simp
  have "map_of (st_meta st) ''ARISTAS_REQ'' = Some (HInt (int (length (st_edges st))))"
    using assms(3) by (simp add: p canonical_def)
  then have "make_warnings st = []"
    using st(2) assms(2) by (simp add: make_warnings_empty)
  then show ?thesis by (simp add: p)
qed

theorem parse_no_warnings_witness:
  "\<exists>p. parse_gdb_dat (example_text ''2'') = Inr p \<and>
       list_ex marker_line (splitlines (example_text ''2'')) \<and>
       m_n_req (meta p) = Some (HInt (int (length (required_edges p)))) \<and>
       length (required_edges p) = 2 \<and> warnings p = []"
proof -
  have n: "m_n_req (meta (example_parsed 2)) =
      Some (HInt (int (length (required_edges (example_parsed 2)))))"
    by (simp add: example_parsed_def example_edges_def)
  have "warnings (example_parsed 2) = []"
    using parse_example2 marker_example n by (rule parse_no_warnings)
  then show ?thesis
    using parse_example2 marker_example n by (simp add: example_parsed_def example_edges_def)
qed

text \<open>
  C4, as the code has it. The parser checks no endpoint against the vertex count: with
  \<open>VERTICES : 3\<close> declared, the edge line \<open>(0,7) coste 1 demanda 1\<close> is emitted with
  \<open>u = 0\<close> and \<open>v = 7\<close>.
\<close>

theorem parse_endpoints_unchecked:
  "parse_gdb_dat (''VERTICES : 3'' @ [CHR 0x0A] @ ''LISTA_ARISTAS_REQ :'' @ [CHR 0x0A] @
      ''(0,7) coste 1 demanda 1'') =
   Inr \<lparr>meta_raw = [(''VERTICES'', HInt 3)],
        meta = \<lparr>m_name = None, m_comment = None, m_n_vertices = Some (HInt 3),
                 m_n_req = None, m_n_noreq = None, m_n_vehicles = None,
                 m_capacity = None, m_req_total_cost = None, m_depot = None,
                 m_cost_type = None\<rparr>,
        required_edges =
          [\<lparr>edge_u = 0, edge_v = 7, edge_cost = 1, edge_demand = 1, edge_required = True\<rparr>],
        warnings = []\<rparr>"
  by code_simp

text \<open>
  C4, amended. Every RequiredEdge the parser emits has non-negative integers \<open>u\<close>, \<open>v\<close>,
  \<open>cost\<close> and \<open>demand\<close>, and \<open>required\<close> true. (Nothing relates the endpoints to the
  declared vertex count.)
\<close>

theorem parse_edges_invariant:
  assumes "parse_gdb_dat text = Inr p" "e \<in> set (required_edges p)"
  shows "0 \<le> edge_u e \<and> 0 \<le> edge_v e \<and> 0 \<le> edge_cost e \<and> 0 \<le> edge_demand e \<and> edge_required e"
proof -
  obtain st where st: "parse_gdb_dat text = Inr \<lparr>meta_raw = st_meta st, meta = canonical (st_meta st),
       required_edges = st_edges st, warnings = make_warnings st\<rparr>"
    "list_all emitted_edge (st_edges st)"
    by (rule parse_gdb_dat_returns)
  have "required_edges p = st_edges st"
    using assms(1) st(1) by auto
  then have "emitted_edge e"
    using st(2) assms(2) by (simp add: list_all_iff)
  then show ?thesis by (simp add: emitted_edge_def)
qed

theorem parse_edges_invariant_witness:
  "\<exists>p e. parse_gdb_dat (example_text ''2'') = Inr p \<and> e \<in> set (required_edges p) \<and>
     edge_u e = 1 \<and> edge_v e = 2 \<and> edge_cost e = 5 \<and> edge_demand e = 50 \<and>
     0 \<le> edge_u e \<and> 0 \<le> edge_v e \<and> 0 \<le> edge_cost e \<and> 0 \<le> edge_demand e \<and> edge_required e"
proof -
  let ?e = "\<lparr>edge_u = 1, edge_v = 2, edge_cost = 5, edge_demand = 50, edge_required = True\<rparr>"
  have m: "?e \<in> set (required_edges (example_parsed 2))"
    by (simp add: example_parsed_def example_edges_def)
  from parse_edges_invariant [OF parse_example2 m] parse_example2 m
  show ?thesis
    by (intro exI [of _ "example_parsed 2"] exI [of _ ?e]) simp
qed

section \<open>Claims about \<open>build_carp_instance\<close>\<close>





text \<open>
  C10. The assembler passes the parser's required-edge list through verbatim: for every
  instance built, its tasks are exactly the required edges in the same order, duplicates
  between the same pair of vertices kept, and \<open>n_tasks\<close> is the length of that list (the
  collapse to the minimum weight is in the distance matrix only).
\<close>

theorem build_tasks_verbatim:
  assumes "build_carp_instance p = Inr b"
  shows "b_tasks b = required_edges p \<and> b_n_tasks b = length (required_edges p)"
  using assms
  by (auto simp: build_carp_instance_def Let_def split: sum.splits if_splits)

theorem build_tasks_verbatim_witness:
  "\<exists>p b. parse_gdb_dat (example_text ''2'') = Inr p \<and> build_carp_instance p = Inr b \<and>
     b_tasks b = required_edges p \<and> b_n_tasks b = length (required_edges p) \<and>
     b_tasks b = example_edges \<and> b_n_tasks b = 2 \<and> b_dist b ! 1 ! 2 = Finite 3"
proof -
  from build_tasks_verbatim [OF build_example2] parse_example2 build_example2
  show ?thesis
    by (simp add: example_edges_def)
qed

section \<open>Claims about the guardrail\<close>

text \<open>
  C2. The claim is that no check lowers the status. The cost check assigns \<open>WARNING\<close>
  whatever the status was: on the graph with the arcs \<open>0 \<rightarrow> 1\<close> of cost 0 and \<open>1 \<rightarrow> 2\<close>
  of cost 1, which is not strongly connected, \<open>validate_instance\<close> reports both issues
  and ends with the status \<open>WARNING\<close>, not \<open>FAIL\<close>, whatever triples of its three
  vertices the sampling draws.
\<close>

theorem validate_status_lowered:
  assumes "\<And>t. draw t \<in> {0, 1, 2} \<times> {0, 1, 2} \<times> {0, 1, 2}"
  shows "validate_instance example_guardrail
       \<lparr>all_pairs_dijkstra_path_length = (\<lambda>G. Inr path_table), random_draw = draw\<rparr>
       [example_row 0 1 0 0] [example_row 1 2 0 1]
     = Inr \<lparr>Status = WARNING, Issues = [Not_strongly_connected, Nonpositive_costs]\<rparr>"
proof -
  have f2: "np_max (map row_demand [example_row 0 1 0 0]) = Inr 0"
    by (simp add: np_max_def example_row_sel)
  have f3: "gr_Q example_guardrail = 1"
    by (simp add: example_guardrail_def)
  show ?thesis
    unfolding validate_instance_def Let_def example_graph example_not_strongly_connected f2
    by (simp add: example_no_violation_any_draw [OF assms] f3 example_row_sel
        check_connectivity_def check_costs_def check_demand_def)
qed

theorem validate_status_lowered_witness:
  "validate_instance example_guardrail (example_libs path_table (0, 1, 2))
     [example_row 0 1 0 0] [example_row 1 2 0 1]
   = Inr \<lparr>Status = WARNING, Issues = [Not_strongly_connected, Nonpositive_costs]\<rparr>"
proof -
  have "(0::int, 1::int, 2::int) \<in> {0, 1, 2} \<times> {0, 1, 2} \<times> {0, 1, 2}" by simp
  from validate_status_lowered [of "\<lambda>t. (0, 1, 2)", OF this]
  show ?thesis by (simp add: example_libs_def)
qed




end
